theory Spec2Isabelle
  imports Main "HOL-Library.Word"
begin

unbundle bit_operations_syntax

section \<open>Machine types and errors\<close>

type_synonym byte = "8 word"
type_synonym uint32 = "32 word"
type_synonym uint64 = "64 word"

text \<open>
  Every error value, and every runtime panic, that the modelled code can produce.
  The first five come from the Go runtime and standard library under \<open>store.go\<close>,
  \<open>ErrNotFound\<close> and \<open>ErrCapacity\<close> are the two index errors of the specification,
  \<open>ErrMarshal\<close> and \<open>ErrUnmarshal\<close> stand for whatever the record codec reports.
\<close>

datatype error =
    ErrWriteFault
  | ErrShortWrite
  | ErrEOF
  | ErrNegativeOffset
  | PanicLenOutOfRange
  | PanicDivideByZero
  | ErrNotFound
  | ErrCapacity
  | ErrMarshal
  | ErrUnmarshal

section \<open>encoding/binary, big endian\<close>

text \<open>\<open>enc = binary.BigEndian\<close>; \<open>lenWidth = 8\<close> (store.go, lines 10-18).\<close>

definition lenWidth :: nat where
  "lenWidth = 8"

definition PutUint64 :: "uint64 \<Rightarrow> byte list" where
  "PutUint64 v =
     [ucast (drop_bit 56 v), ucast (drop_bit 48 v), ucast (drop_bit 40 v), ucast (drop_bit 32 v),
      ucast (drop_bit 24 v), ucast (drop_bit 16 v), ucast (drop_bit 8 v), ucast v]"

definition Uint64 :: "byte list \<Rightarrow> uint64" where
  "Uint64 b =
     ucast (b ! 7) OR push_bit 8 (ucast (b ! 6)) OR push_bit 16 (ucast (b ! 5)) OR
     push_bit 24 (ucast (b ! 4)) OR push_bit 32 (ucast (b ! 3)) OR push_bit 40 (ucast (b ! 2)) OR
     push_bit 48 (ucast (b ! 1)) OR push_bit 56 (ucast (b ! 0))"

section \<open>The file under the store\<close>

text \<open>
  An \<open>*os.File\<close> opened with \<open>O_RDWR|O_CREATE|O_APPEND\<close>: its contents, and whether the
  operating system currently rejects writes to it (full disk, closed descriptor).
  A write appends all of its bytes or none; a positional read of \<open>n\<close> bytes returns
  them all, or \<open>io.EOF\<close> when the file ends before, and refuses a negative offset
  before anything else. A read of no bytes succeeds anywhere at or after offset 0.
\<close>

record os_File =
  fbytes :: "byte list"
  wfault :: bool

definition os_File_Write :: "os_File \<Rightarrow> byte list \<Rightarrow> nat \<times> error option \<times> os_File" where
  "os_File_Write f p =
     (if wfault f then (0, Some ErrWriteFault, f)
      else (length p, None, f\<lparr>fbytes := fbytes f @ p\<rparr>))"

definition os_File_ReadAt :: "os_File \<Rightarrow> nat \<Rightarrow> int \<Rightarrow> error + byte list" where
  "os_File_ReadAt f n off =
     (if off < 0 then Inl ErrNegativeOffset
      else if length (drop (nat off) (fbytes f)) < n then Inl ErrEOF
      else Inr (take n (drop (nat off) (fbytes f))))"

section \<open>bufio.Writer\<close>

text \<open>
  \<open>bufio.NewWriter(f)\<close>: a buffer of \<open>defaultBufSize = 4096\<close> bytes in front of the
  file, and the sticky error \<open>b.err\<close>: once a write to the file has failed, every later
  \<open>Write\<close> and \<open>Flush\<close> returns that error.
\<close>

record bufio_Writer =
  wbuf :: "byte list"
  werr :: "error option"

definition defaultBufSize :: nat where
  "defaultBufSize = 4096"

definition bufio_NewWriter :: bufio_Writer where
  "bufio_NewWriter = \<lparr>wbuf = [], werr = None\<rparr>"

definition bufio_Available :: "bufio_Writer \<Rightarrow> nat" where
  "bufio_Available b = defaultBufSize - length (wbuf b)"

definition bufio_Buffered :: "bufio_Writer \<Rightarrow> nat" where
  "bufio_Buffered b = length (wbuf b)"

definition bufio_Flush :: "bufio_Writer \<Rightarrow> os_File \<Rightarrow> error option \<times> bufio_Writer \<times> os_File" where
  "bufio_Flush b f =
     (case werr b of
        Some e \<Rightarrow> (Some e, b, f)
      | None \<Rightarrow>
          if bufio_Buffered b = 0 then (None, b, f)
          else
            (case os_File_Write f (wbuf b) of
               (n, e, f') \<Rightarrow>
                 (case (if n < bufio_Buffered b \<and> e = None then Some ErrShortWrite else e) of
                    Some e' \<Rightarrow> (Some e', b\<lparr>wbuf := drop n (wbuf b), werr := Some e'\<rparr>, f')
                  | None \<Rightarrow> (None, b\<lparr>wbuf := []\<rparr>, f'))))"

text \<open>
  The loop of \<open>bufio.Writer.Write\<close>: while the bytes left do not fit into the buffer and
  no error is pending, an empty buffer passes them to the file directly, a non-empty
  one is filled up and flushed (\<open>copy\<close> takes \<open>Available\<close> bytes there, fewer than
  \<open>len(p)\<close> by the loop's guard). It returns the writer, the file, the bytes still to
  be copied and the count \<open>nn\<close> of bytes taken so far.
\<close>

function bufio_Write_loop ::
  "bufio_Writer \<Rightarrow> os_File \<Rightarrow> byte list \<Rightarrow> nat \<Rightarrow> bufio_Writer \<times> os_File \<times> byte list \<times> nat" where
  "bufio_Write_loop b f p nn =
     (if bufio_Available b < length p \<and> werr b = None then
        (if bufio_Buffered b = 0 then
           (case os_File_Write f p of
              (n, e, f') \<Rightarrow> bufio_Write_loop (b\<lparr>werr := e\<rparr>) f' (drop n p) (nn + n))
         else
           (case bufio_Flush (b\<lparr>wbuf := wbuf b @ take (bufio_Available b) p\<rparr>) f of
              (e, b', f') \<Rightarrow>
                bufio_Write_loop b' f' (drop (bufio_Available b) p) (nn + bufio_Available b)))
      else (b, f, p, nn))"
  by pat_completeness auto

termination
  apply (relation "measures [\<lambda>(b, f, p, nn). if werr b = None then 1 else 0,
                             \<lambda>(b, f, p, nn). length p,
                             \<lambda>(b, f, p, nn). length (wbuf b)]")
    apply simp
   apply (auto simp add: os_File_Write_def split: if_splits)[1]
  apply (auto simp add: bufio_Flush_def bufio_Buffered_def os_File_Write_def
      split: if_splits option.splits prod.splits)
  done

text \<open>\<open>bufio.Writer.Write\<close>: the loop, then the copy of what is left into the buffer.\<close>

definition bufio_Write ::
  "bufio_Writer \<Rightarrow> os_File \<Rightarrow> byte list \<Rightarrow> nat \<times> error option \<times> bufio_Writer \<times> os_File" where
  "bufio_Write b f p =
     (case bufio_Write_loop b f p 0 of
        (b', f', p', nn) \<Rightarrow>
          (case werr b' of
             Some e \<Rightarrow> (nn, Some e, b', f')
           | None \<Rightarrow> (nn + length p', None, b'\<lparr>wbuf := wbuf b' @ p'\<rparr>, f')))"

text \<open>\<open>binary.Write(w, enc, uint64(v))\<close>: the eight bytes of \<open>v\<close>, written to \<open>w\<close>.\<close>

definition binary_Write ::
  "bufio_Writer \<Rightarrow> os_File \<Rightarrow> uint64 \<Rightarrow> error option \<times> bufio_Writer \<times> os_File" where
  "binary_Write b f v = (case bufio_Write b f (PutUint64 v) of (n, e, b', f') \<Rightarrow> (e, b', f'))"

section \<open>The store (store.go)\<close>

record store =
  File :: os_File
  buf :: bufio_Writer
  store_size :: uint64

definition newStore :: "os_File \<Rightarrow> error + store" where
  "newStore f = Inr \<lparr>File = f, buf = bufio_NewWriter, store_size = word_of_nat (length (fbytes f))\<rparr>"

text \<open>
  \<open>store.Append\<close> returns \<open>(n, pos, err)\<close> as Go does, \<open>(0, 0, err)\<close> on an error, and
  the store after the call. \<open>w\<close> is a Go \<open>int\<close> and \<open>len(p)\<close> is below \<open>2^63\<close>, so
  \<open>w + lenWidth\<close> is computed on naturals and converted by \<open>uint64(w)\<close>.
\<close>

definition store_Append :: "store \<Rightarrow> byte list \<Rightarrow> (uint64 \<times> uint64 \<times> error option) \<times> store" where
  "store_Append s p =
     (let pos = store_size s in
      case binary_Write (buf s) (File s) (word_of_nat (length p)) of
        (Some e, b1, f1) \<Rightarrow> ((0, 0, Some e), s\<lparr>File := f1, buf := b1\<rparr>)
      | (None, b1, f1) \<Rightarrow>
          (case bufio_Write b1 f1 p of
             (w, Some e, b2, f2) \<Rightarrow> ((0, 0, Some e), s\<lparr>File := f2, buf := b2\<rparr>)
           | (w, None, b2, f2) \<Rightarrow>
               ((word_of_nat (w + lenWidth), pos, None),
                s\<lparr>File := f2, buf := b2, store_size := store_size s + word_of_nat (w + lenWidth)\<rparr>)))"

text \<open>
  \<open>store.Read\<close>: flush, read the eight bytes of the length at \<open>int64(pos)\<close>, allocate
  that many bytes (\<open>make\<close> panics when the length does not fit a Go \<open>int\<close>), read them at
  \<open>int64(pos + lenWidth)\<close>.
\<close>

definition store_Read :: "store \<Rightarrow> uint64 \<Rightarrow> (error + byte list) \<times> store" where
  "store_Read s pos =
     (case bufio_Flush (buf s) (File s) of
        (Some e, b', f') \<Rightarrow> (Inl e, s\<lparr>File := f', buf := b'\<rparr>)
      | (None, b', f') \<Rightarrow>
          (let s' = s\<lparr>File := f', buf := b'\<rparr> in
           case os_File_ReadAt f' lenWidth (sint pos) of
             Inl e \<Rightarrow> (Inl e, s')
           | Inr sz \<Rightarrow>
               if 2 ^ 63 \<le> unat (Uint64 sz) then (Inl PanicLenOutOfRange, s')
               else
                 (case os_File_ReadAt f' (unat (Uint64 sz)) (sint (pos + word_of_nat lenWidth)) of
                    Inl e \<Rightarrow> (Inl e, s')
                  | Inr b \<Rightarrow> (Inr b, s'))))"

text \<open>\<open>store.Close\<close>: flush, then close the file; the file is returned as it is on disk.\<close>

definition store_Close :: "store \<Rightarrow> error option \<times> os_File" where
  "store_Close s = (case bufio_Flush (buf s) (File s) of (e, b', f') \<Rightarrow> (e, f'))"

section \<open>nearestMultiple (segment file, lines 146-151)\<close>

text \<open>Go panics on an integer division by zero; the panic is the value \<open>Inl\<close>.\<close>

definition nearestMultiple :: "uint64 \<Rightarrow> uint64 \<Rightarrow> error + uint64" where
  "nearestMultiple j k =
     (if 0 \<le> j then
        (if k = 0 then Inl PanicDivideByZero else Inr ((j div k) * k))
      else
        (if k = 0 then Inl PanicDivideByZero else Inr (((j - k + 1) div k) * k)))"

section \<open>Configuration, records and their codec\<close>

text \<open>
  Modelled from the spec: the \<open>Config\<close> type is declared outside the files at hand. The
  segment reads \<open>c.Segment.MaxStoreBytes\<close> and \<open>c.Segment.MaxIndexBytes\<close> and compares them
  with \<open>uint64\<close> sizes; the nested struct is flattened.
\<close>

record Config =
  MaxStoreBytes :: uint64
  MaxIndexBytes :: uint64

text \<open>
  Modelled from the spec: \<open>api.Record\<close> is generated code outside the files at hand, an
  opaque payload with a mutable offset field, which \<open>segment.Append\<close> assigns.
\<close>

record api_Record =
  Value :: "byte list"
  Offset :: uint64

text \<open>
  \<open>proto.Marshal\<close> and \<open>proto.Unmarshal\<close> belong to an external library and to the
  schema layer: they are parameters of the segment's operations. \<open>Unmarshal\<close> returns the
  record it filled together with its error, as the Go call leaves them.
\<close>

record codec =
  Marshal :: "api_Record \<Rightarrow> error + byte list"
  Unmarshal :: "byte list \<Rightarrow> api_Record \<times> error option"

section \<open>The index\<close>

text \<open>
  Modelled from the spec: the index (type \<open>index\<close>, \<open>newIndex\<close>, \<open>Read\<close>, \<open>Write\<close>, \<open>Close\<close>)
  is code of this repository outside the files at hand. The specification describes it
  as a dense, append-only array of entries \<open>(relativeOffset: uint32, position: uint64)\<close> of
  12 bytes each, in a backing region pre-sized to the configured maximum rounded down to
  a multiple of the entry width; its size in bytes is the number of entries times 12.
  The region's length is kept in \<open>mmap_len\<close>; the file is the list of entries.
\<close>

type_synonym entry = "uint32 \<times> uint64"

definition entWidth :: nat where
  "entWidth = 12"

record index =
  entries :: "entry list"
  mmap_len :: uint64

definition index_size :: "index \<Rightarrow> uint64" where
  "index_size i = word_of_nat (length (entries i) * entWidth)"

text \<open>
  Modelled from the spec: opening keeps the entries of the file and sizes the region to
  \<open>nearestMultiple(MaxIndexBytes, entWidth)\<close>.
\<close>

definition newIndex :: "entry list \<Rightarrow> Config \<Rightarrow> error + index" where
  "newIndex f c =
     (case nearestMultiple (MaxIndexBytes c) (word_of_nat entWidth) of
        Inl e \<Rightarrow> Inl e
      | Inr m \<Rightarrow> Inr \<lparr>entries = f, mmap_len = m\<rparr>)"

text \<open>
  Modelled from the spec: \<open>read(relativeOffset: i64)\<close>. The argument is the 64 bits the
  segment passes, read as a signed number. \<open>-1\<close> is the last written entry, any other
  value is the entry at that exact index; the read fails with the not-found error when
  the index is empty (for \<open>-1\<close>) or no entry has been written at that index.
\<close>

definition index_Read :: "index \<Rightarrow> uint64 \<Rightarrow> error + entry" where
  "index_Read i rel =
     (if sint rel = - 1 then
        (if entries i = [] then Inl ErrNotFound else Inr (last (entries i)))
      else if 0 \<le> sint rel \<and> nat (sint rel) < length (entries i) then
        Inr (entries i ! nat (sint rel))
      else Inl ErrNotFound)"

text \<open>
  Modelled from the spec: \<open>write(offset: u32, position: u64)\<close> appends an entry at the
  current end, and fails with the capacity error if the region's length would be
  exceeded.
\<close>

definition index_Write :: "index \<Rightarrow> uint32 \<Rightarrow> uint64 \<Rightarrow> error + index" where
  "index_Write i off pos =
     (if unat (mmap_len i) < (length (entries i) + 1) * entWidth then Inl ErrCapacity
      else Inr (i\<lparr>entries := entries i @ [(off, pos)]\<rparr>))"

text \<open>
  Modelled from the spec: \<open>close\<close> truncates the file to the bytes in use, so that the
  file holds exactly the entries written.
\<close>

definition index_Close :: "index \<Rightarrow> error option \<times> entry list" where
  "index_Close i = (None, entries i)"

section \<open>The segment (segment file)\<close>

record segment =
  store :: store
  index :: index
  baseOffset :: uint64
  nextOffset :: uint64
  config :: Config

text \<open>
  The directory: the store file and the index file of each base offset
  (\<open><baseOffset>.store\<close>, \<open><baseOffset>.index\<close>). An open segment owns its two files; the
  directory holds what they were when last opened or closed.
\<close>

record dir =
  store_files :: "uint64 \<rightharpoonup> os_File"
  index_files :: "uint64 \<rightharpoonup> entry list"

definition empty_dir :: dir where
  "empty_dir = \<lparr>store_files = Map.empty, index_files = Map.empty\<rparr>"

text \<open>
  \<open>os.OpenFile\<close> with \<open>O_CREATE\<close>: the file of that name, created empty when there is
  none.
\<close>

definition open_store_file :: "dir \<Rightarrow> uint64 \<Rightarrow> os_File" where
  "open_store_file d b =
     (case store_files d b of None \<Rightarrow> \<lparr>fbytes = [], wfault = False\<rparr> | Some f \<Rightarrow> f)"

definition open_index_file :: "dir \<Rightarrow> uint64 \<Rightarrow> entry list" where
  "open_index_file d b = (case index_files d b of None \<Rightarrow> [] | Some es \<Rightarrow> es)"

definition newSegment :: "dir \<Rightarrow> uint64 \<Rightarrow> Config \<Rightarrow> (error + segment) \<times> dir" where
  "newSegment d b c =
     (let storeFile = open_store_file d b;
          d1 = d\<lparr>store_files := (store_files d)(b \<mapsto> storeFile)\<rparr>
      in case newStore storeFile of
           Inl e \<Rightarrow> (Inl e, d1)
         | Inr st \<Rightarrow>
             (let indexFile = open_index_file d1 b;
                  d2 = d1\<lparr>index_files := (index_files d1)(b \<mapsto> indexFile)\<rparr>
              in case newIndex indexFile c of
                   Inl e \<Rightarrow> (Inl e, d2)
                 | Inr ix \<Rightarrow>
                     (case index_Read ix (- 1) of
                        Inl e \<Rightarrow>
                          (Inr \<lparr>store = st, index = ix, baseOffset = b, nextOffset = b,
                                config = c\<rparr>, d2)
                      | Inr (off, pos) \<Rightarrow>
                          (Inr \<lparr>store = st, index = ix, baseOffset = b,
                                nextOffset = b + ucast off + 1, config = c\<rparr>, d2))))"

text \<open>
  \<open>segment.Append\<close> returns the offset or the error, the segment after the call, and the
  caller's record, whose \<open>Offset\<close> field the call assigns. The error of \<open>store.Append\<close>
  is overwritten by the result of \<open>index.Write\<close> before anything reads it (lines 79-80);
  on a store error \<open>pos\<close> is the \<open>0\<close> that \<open>store.Append\<close> returns.
\<close>

definition segment_Append ::
  "codec \<Rightarrow> segment \<Rightarrow> api_Record \<Rightarrow> (error + uint64) \<times> segment \<times> api_Record" where
  "segment_Append cd s record =
     (let cursor = nextOffset s;
          record' = record\<lparr>Offset := cursor\<rparr>
      in case Marshal cd record' of
           Inl e \<Rightarrow> (Inl e, s, record')
         | Inr p \<Rightarrow>
             (case store_Append (store s) p of
                ((n, pos, err), st') \<Rightarrow>
                  (case index_Write (index s) (ucast (nextOffset s - baseOffset s)) pos of
                     Inl e \<Rightarrow> (Inl e, s\<lparr>store := st'\<rparr>, record')
                   | Inr ix' \<Rightarrow>
                       (Inr cursor,
                        s\<lparr>store := st', index := ix', nextOffset := nextOffset s + 1\<rparr>,
                        record'))))"

text \<open>
  \<open>segment.Read\<close> returns Go's pair: no record and the error, or the record that
  \<open>Unmarshal\<close> filled and its error.
\<close>

definition segment_Read ::
  "codec \<Rightarrow> segment \<Rightarrow> uint64 \<Rightarrow> (api_Record option \<times> error option) \<times> segment" where
  "segment_Read cd s off =
     (case index_Read (index s) (off - baseOffset s) of
        Inl e \<Rightarrow> ((None, Some e), s)
      | Inr (rel, pos) \<Rightarrow>
          (case store_Read (store s) pos of
             (Inl e, st') \<Rightarrow> ((None, Some e), s\<lparr>store := st'\<rparr>)
           | (Inr p, st') \<Rightarrow>
               (case Unmarshal cd p of (record, err) \<Rightarrow> ((Some record, err), s\<lparr>store := st'\<rparr>))))"

definition segment_IsMaxed :: "segment \<Rightarrow> bool" where
  "segment_IsMaxed s \<longleftrightarrow>
     MaxStoreBytes (config s) \<le> store_size (store s) \<or>
     MaxIndexBytes (config s) \<le> index_size (index s)"

text \<open>\<open>segment.Close\<close>: the index first, then the store; the first error wins.\<close>

definition segment_Close :: "segment \<Rightarrow> dir \<Rightarrow> error option \<times> dir" where
  "segment_Close s d =
     (case index_Close (index s) of
        (Some e, es) \<Rightarrow> (Some e, d)
      | (None, es) \<Rightarrow>
          (let d1 = d\<lparr>index_files := (index_files d)(baseOffset s \<mapsto> es)\<rparr> in
           case store_Close (store s) of
             (e, f') \<Rightarrow> (e, d1\<lparr>store_files := (store_files d1)(baseOffset s \<mapsto> f')\<rparr>)))"

section \<open>Sequences of calls, and the environment\<close>

text \<open>
  \<open>append_all\<close> calls \<open>segment.Append\<close> on each record in turn and collects, for each call,
  its result and the caller's record after it; \<open>read_all\<close> calls \<open>segment.Read\<close> on each
  offset in turn.
\<close>

fun append_all ::
  "codec \<Rightarrow> segment \<Rightarrow> api_Record list \<Rightarrow> ((error + uint64) \<times> api_Record) list \<times> segment" where
  "append_all cd s [] = ([], s)"
| "append_all cd s (r # rs) =
     (case segment_Append cd s r of
        (res, s', r') \<Rightarrow>
          (case append_all cd s' rs of (out, s'') \<Rightarrow> ((res, r') # out, s'')))"


definition succeeded :: "(error + uint64) \<times> api_Record \<Rightarrow> bool" where
  "succeeded x = (case fst x of Inl e \<Rightarrow> False | Inr off \<Rightarrow> True)"

text \<open>The operating system starts (or stops) rejecting writes to the store's file.\<close>

definition set_wfault :: "bool \<Rightarrow> segment \<Rightarrow> segment" where
  "set_wfault b s = s\<lparr>store := (store s)\<lparr>File := (File (store s))\<lparr>wfault := b\<rparr>\<rparr>\<rparr>"

text \<open>
  What can happen to a segment once \<open>newSegment\<close> has returned it: an append, a read, a
  change of the file's health, or a close followed by \<open>newSegment\<close> on the same base
  offset (the reopened segment replaces the old one; when \<open>newSegment\<close> fails there is
  none, and the old state is kept).
\<close>

datatype event =
    EvAppend api_Record
  | EvRead uint64
  | EvFault bool
  | EvReopen Config

definition reopen :: "segment \<Rightarrow> Config \<Rightarrow> error + segment" where
  "reopen s c = (case segment_Close s empty_dir of (e, d) \<Rightarrow> fst (newSegment d (baseOffset s) c))"

fun step :: "codec \<Rightarrow> segment \<Rightarrow> event \<Rightarrow> segment" where
  "step cd s (EvAppend r) = fst (snd (segment_Append cd s r))"
| "step cd s (EvRead off) = snd (segment_Read cd s off)"
| "step cd s (EvFault b) = set_wfault b s"
| "step cd s (EvReopen c) = (case reopen s c of Inl e \<Rightarrow> s | Inr s' \<Rightarrow> s')"

definition run :: "codec \<Rightarrow> segment \<Rightarrow> event list \<Rightarrow> segment" where
  "run cd s evs = foldl (step cd) s evs"

text \<open>The bytes of a store in their logical order: the file, then the write buffer.\<close>

definition stream :: "store \<Rightarrow> byte list" where
  "stream s = fbytes (File s) @ wbuf (buf s)"

text \<open>An entry of the store: the eight bytes of the length, then the payload.\<close>

definition frame :: "byte list \<Rightarrow> byte list" where
  "frame p = PutUint64 (word_of_nat (length p)) @ p"

text \<open>
  A codec to run the operations on: the offset in eight bytes, then the value. It stands
  in for the protobuf encoding wherever a concrete codec is needed.
\<close>

definition sample_codec :: codec where
  "sample_codec =
     \<lparr>Marshal = (\<lambda>r. Inr (PutUint64 (Offset r) @ Value r)),
      Unmarshal = (\<lambda>p. if length p < 8 then (\<lparr>Value = [], Offset = 0\<rparr>, Some ErrUnmarshal)
                        else (\<lparr>Value = drop 8 p, Offset = Uint64 (take 8 p)\<rparr>, None))\<rparr>"


text \<open>A configuration and the segment that \<open>newSegment\<close> returns for it in an empty directory.\<close>

definition sample_config :: Config where
  "sample_config = \<lparr>MaxStoreBytes = 1024, MaxIndexBytes = 1024\<rparr>"

definition fresh_sample :: segment where
  "fresh_sample =
     \<lparr>store = \<lparr>File = \<lparr>fbytes = [], wfault = False\<rparr>, buf = \<lparr>wbuf = [], werr = None\<rparr>,
               store_size = 0\<rparr>,
      index = \<lparr>entries = [], mmap_len = 1020\<rparr>,
      baseOffset = 0, nextOffset = 0, config = sample_config\<rparr>"

text \<open>The segment that \<open>newSegment\<close> returns for base offset \<open>b\<close> in an empty directory.\<close>

definition fresh_at :: "uint64 \<Rightarrow> segment" where
  "fresh_at b = fresh_sample\<lparr>baseOffset := b, nextOffset := b\<rparr>"

text \<open>
  A configuration whose index has room for \<open>2^32 + 1\<close> entries, and the segment that
  \<open>newSegment\<close> returns for it at base offset 0 in an empty directory.
\<close>

definition big_config :: Config where
  "big_config = \<lparr>MaxStoreBytes = 1024, MaxIndexBytes = 51539607564\<rparr>"

definition big_fresh :: segment where
  "big_fresh = fresh_sample\<lparr>index := \<lparr>entries = [], mmap_len = 51539607564\<rparr>, config := big_config\<rparr>"



text \<open>
  What relates \<open>nextOffset\<close> to the index in every state of a segment: the index fits
  64 bits of size; \<open>nextOffset\<close> is the base offset when the index is empty, and
  otherwise lies from 1 up to the number of entries above it, as does the successor
  of the last entry's relative offset.
\<close>

definition offset_inv :: "segment \<Rightarrow> bool" where
  "offset_inv s \<longleftrightarrow>
     length (entries (index s)) * entWidth < 2 ^ 64 \<and>
     (entries (index s) = [] \<longrightarrow> nextOffset s = baseOffset s) \<and>
     (entries (index s) \<noteq> [] \<longrightarrow>
        1 \<le> unat (nextOffset s - baseOffset s) \<and>
        unat (nextOffset s - baseOffset s) \<le> length (entries (index s)) \<and>
        unat (fst (last (entries (index s)))) < length (entries (index s)))"

text \<open>
  While no relative offset has been cut to 32 bits: \<open>nextOffset\<close> is the base offset plus
  the number of index entries, and the last entry carries the relative offset of its
  own position.
\<close>

definition exact_inv :: "segment \<Rightarrow> bool" where
  "exact_inv s \<longleftrightarrow>
     nextOffset s = baseOffset s + word_of_nat (length (entries (index s))) \<and>
     (entries (index s) \<noteq> [] \<longrightarrow>
        fst (last (entries (index s)))
          = ucast (word_of_nat (length (entries (index s)) - 1) :: uint64))"

section \<open>Properties of the buffered writer and the store\<close>

declare bufio_Write_loop.simps [simp del]

lemmas store_defs =
  store_Append_def store_Read_def binary_Write_def bufio_Write_def bufio_Flush_def
  bufio_Available_def bufio_Buffered_def defaultBufSize_def os_File_Write_def os_File_ReadAt_def
  lenWidth_def PutUint64_def Let_def

lemmas segment_defs =
  segment_Append_def segment_Read_def index_Write_def index_Read_def entWidth_def
  sample_codec_def sample_config_def fresh_sample_def set_wfault_def

lemmas run_defs =
  run_def reopen_def segment_Close_def index_Close_def store_Close_def newSegment_def
  open_store_file_def open_index_file_def newStore_def newIndex_def nearestMultiple_def
  bufio_NewWriter_def empty_dir_def fresh_at_def Let_def

lemma newSegment_fresh_at:
  "fst (newSegment empty_dir b sample_config) = Inr (fresh_at b)"
  by (simp add: run_defs segment_defs)


lemma os_File_Write_count:
  "os_File_Write f p = (n, e, f') \<Longrightarrow> n \<le> length p"
  by (auto simp add: os_File_Write_def split: if_splits)

lemma bufio_Write_loop_count:
  "bufio_Write_loop b f p nn = (b', f', p', nn') \<Longrightarrow> nn' + length p' = nn + length p"
proof (induction b f p nn rule: bufio_Write_loop.induct)
  case (1 b f p nn)
  show ?case
  proof (cases "bufio_Available b < length p \<and> werr b = None")
    case False
    with "1.prems" show ?thesis by (simp add: bufio_Write_loop.simps [of b f p nn])
  next
    case go: True
    show ?thesis
    proof (cases "bufio_Buffered b = 0")
      case True
      obtain n e f1 where w: "os_File_Write f p = (n, e, f1)"
        by (cases "os_File_Write f p") auto
      from "1.prems" go True w
      have "bufio_Write_loop (b\<lparr>werr := e\<rparr>) f1 (drop n p) (nn + n) = (b', f', p', nn')"
        by (simp add: bufio_Write_loop.simps [of b f p nn] split: if_splits)
      from "1.IH"(1) [OF go True w [symmetric] refl this]
      have "nn' + length p' = nn + n + length (drop n p)" by simp
      with os_File_Write_count [OF w] show ?thesis by simp
    next
      case False
      obtain e b1 f1 where fl:
        "bufio_Flush (b\<lparr>wbuf := wbuf b @ take (bufio_Available b) p\<rparr>) f = (e, b1, f1)"
        by (cases "bufio_Flush (b\<lparr>wbuf := wbuf b @ take (bufio_Available b) p\<rparr>) f") auto
      from "1.prems" go False fl
      have "bufio_Write_loop b1 f1 (drop (bufio_Available b) p) (nn + bufio_Available b)
              = (b', f', p', nn')"
        by (simp add: bufio_Write_loop.simps [of b f p nn] split: if_splits)
      from "1.IH"(2) [OF go False fl [symmetric] refl this]
      have "nn' + length p' = nn + bufio_Available b + length (drop (bufio_Available b) p)"
        by simp
      with go show ?thesis by simp
    qed
  qed
qed


lemma bufio_Flush_ok:
  "bufio_Flush b f = (e, b1, f1) \<Longrightarrow> werr b1 = None \<Longrightarrow>
     e = None \<and> werr b = None \<and> wbuf b1 = [] \<and> fbytes f1 = fbytes f @ wbuf b \<and>
     wfault f1 = wfault f"
  by (auto simp add: bufio_Flush_def bufio_Buffered_def os_File_Write_def
      split: option.splits if_splits)

lemma bufio_Flush_healthy:
  "\<not> wfault f \<Longrightarrow> werr b = None \<Longrightarrow>
     bufio_Flush b f = (None, b\<lparr>wbuf := []\<rparr>, f\<lparr>fbytes := fbytes f @ wbuf b\<rparr>)"
  by (simp add: bufio_Flush_def bufio_Buffered_def os_File_Write_def)

lemma bufio_Write_loop_stream:
  "bufio_Write_loop b f p nn = (b', f', p', nn') \<Longrightarrow> werr b' = None \<Longrightarrow>
     fbytes f' @ wbuf b' @ p' = fbytes f @ wbuf b @ p \<and> wfault f' = wfault f \<and> werr b = None"
proof (induction b f p nn rule: bufio_Write_loop.induct)
  case (1 b f p nn)
  show ?case
  proof (cases "bufio_Available b < length p \<and> werr b = None")
    case False
    with "1.prems" show ?thesis by (auto simp add: bufio_Write_loop.simps [of b f p nn])
  next
    case go: True
    show ?thesis
    proof (cases "bufio_Buffered b = 0")
      case True
      obtain n e f1 where w: "os_File_Write f p = (n, e, f1)"
        by (cases "os_File_Write f p") auto
      from "1.prems" go True w
      have "bufio_Write_loop (b\<lparr>werr := e\<rparr>) f1 (drop n p) (nn + n) = (b', f', p', nn')"
        by (simp add: bufio_Write_loop.simps [of b f p nn])
      from "1.IH"(1) [OF go True w [symmetric] refl this "1.prems"(2)]
      have ih: "fbytes f' @ wbuf b' @ p' = fbytes f1 @ wbuf b @ drop n p"
        "wfault f' = wfault f1" "e = None" by simp_all
      from w ih(3) have "n = length p" "fbytes f1 = fbytes f @ p" "wfault f1 = wfault f"
        by (auto simp add: os_File_Write_def split: if_splits)
      with ih True go show ?thesis by (simp add: bufio_Buffered_def)
    next
      case False
      let ?a = "bufio_Available b"
      obtain e b1 f1 where fl: "bufio_Flush (b\<lparr>wbuf := wbuf b @ take ?a p\<rparr>) f = (e, b1, f1)"
        by (cases "bufio_Flush (b\<lparr>wbuf := wbuf b @ take ?a p\<rparr>) f") auto
      from "1.prems" go False fl
      have "bufio_Write_loop b1 f1 (drop ?a p) (nn + ?a) = (b', f', p', nn')"
        by (simp add: bufio_Write_loop.simps [of b f p nn])
      from "1.IH"(2) [OF go False fl [symmetric] refl this "1.prems"(2)]
      have ih: "fbytes f' @ wbuf b' @ p' = fbytes f1 @ wbuf b1 @ drop ?a p"
        "wfault f' = wfault f1" "werr b1 = None" by simp_all
      from bufio_Flush_ok [OF fl ih(3)]
      have "wbuf b1 = []" "fbytes f1 = fbytes f @ wbuf b @ take ?a p" "wfault f1 = wfault f"
        by simp_all
      with ih go show ?thesis by simp
    qed
  qed
qed

lemma bufio_Write_loop_healthy:
  "bufio_Write_loop b f p nn = (b', f', p', nn') \<Longrightarrow> \<not> wfault f \<Longrightarrow> werr b = None \<Longrightarrow>
     werr b' = None"
proof (induction b f p nn rule: bufio_Write_loop.induct)
  case (1 b f p nn)
  show ?case
  proof (cases "bufio_Available b < length p \<and> werr b = None")
    case False
    with "1.prems" show ?thesis by (auto simp add: bufio_Write_loop.simps [of b f p nn])
  next
    case go: True
    show ?thesis
    proof (cases "bufio_Buffered b = 0")
      case True
      obtain n e f1 where w: "os_File_Write f p = (n, e, f1)"
        by (cases "os_File_Write f p") auto
      from "1.prems" go True w
      have rc: "bufio_Write_loop (b\<lparr>werr := e\<rparr>) f1 (drop n p) (nn + n) = (b', f', p', nn')"
        by (simp add: bufio_Write_loop.simps [of b f p nn])
      from w "1.prems"(2) have "e = None" "\<not> wfault f1"
        by (auto simp add: os_File_Write_def)
      with "1.IH"(1) [OF go True w [symmetric] refl rc] show ?thesis by simp
    next
      case False
      let ?a = "bufio_Available b"
      have fl: "bufio_Flush (b\<lparr>wbuf := wbuf b @ take ?a p\<rparr>) f
          = (None, b\<lparr>wbuf := []\<rparr>, f\<lparr>fbytes := fbytes f @ wbuf b @ take ?a p\<rparr>)"
        using bufio_Flush_healthy [of f "b\<lparr>wbuf := wbuf b @ take ?a p\<rparr>"] "1.prems" by simp
      from "1.prems" go False fl
      have rc: "bufio_Write_loop (b\<lparr>wbuf := []\<rparr>) (f\<lparr>fbytes := fbytes f @ wbuf b @ take ?a p\<rparr>)
          (drop ?a p) (nn + ?a) = (b', f', p', nn')"
        by (simp add: bufio_Write_loop.simps [of b f p nn])
      from "1.IH"(2) [OF go False fl [symmetric] refl rc] "1.prems" show ?thesis by simp
    qed
  qed
qed

lemma bufio_Write_ok:
  assumes "bufio_Write b f p = (w, None, b2, f2)"
  shows "w = length p \<and> fbytes f2 @ wbuf b2 = fbytes f @ wbuf b @ p \<and>
    wfault f2 = wfault f \<and> werr b2 = None \<and> werr b = None"
proof -
  obtain b1 f1 p1 nn where l: "bufio_Write_loop b f p 0 = (b1, f1, p1, nn)"
    by (cases "bufio_Write_loop b f p 0") auto
  from assms l have e: "werr b1 = None" and r: "w = nn + length p1" "b2 = b1\<lparr>wbuf := wbuf b1 @ p1\<rparr>" "f2 = f1"
    by (auto simp add: bufio_Write_def split: option.splits)
  from bufio_Write_loop_count [OF l] bufio_Write_loop_stream [OF l e] e r
  show ?thesis by simp
qed

lemma bufio_Write_healthy:
  assumes "\<not> wfault f" "werr b = None"
  shows "\<exists>b2 f2. bufio_Write b f p = (length p, None, b2, f2)"
proof -
  obtain b1 f1 p1 nn where l: "bufio_Write_loop b f p 0 = (b1, f1, p1, nn)"
    by (cases "bufio_Write_loop b f p 0") auto
  from bufio_Write_loop_healthy [OF l assms] bufio_Write_loop_count [OF l] l
  show ?thesis by (simp add: bufio_Write_def)
qed

lemma unat_word_of_nat_64:
  "n < 2 ^ 64 \<Longrightarrow> unat (word_of_nat n :: uint64) = n"
  by (rule of_nat_inverse [OF refl]) simp

lemma store_Append_ok:
  assumes "store_Append s p = ((n, pos, None), s')"
  shows "n = word_of_nat (length p + 8) \<and> pos = store_size s \<and>
     store_size s' = store_size s + word_of_nat (length p + 8) \<and>
     stream s' = stream s @ frame p \<and>
     wfault (File s') = wfault (File s) \<and> werr (buf s') = None \<and> werr (buf s) = None"
proof -
  obtain e1 b1 f1 where w1: "binary_Write (buf s) (File s) (word_of_nat (length p)) = (e1, b1, f1)"
    by (cases "binary_Write (buf s) (File s) (word_of_nat (length p))") auto
  with assms have e1: "e1 = None"
    by (cases e1) (auto simp add: store_Append_def Let_def)
  obtain w e2 b2 f2 where w2: "bufio_Write b1 f1 p = (w, e2, b2, f2)"
    by (cases "bufio_Write b1 f1 p") auto
  with assms w1 e1 have e2: "e2 = None"
    by (cases e2) (auto simp add: store_Append_def Let_def)
  from w1 e1 obtain w0 where w0: "bufio_Write (buf s) (File s) (PutUint64 (word_of_nat (length p))) = (w0, None, b1, f1)"
    by (auto simp add: binary_Write_def split: prod.splits)
  from assms w1 w2 e1 e2
  have r: "n = word_of_nat (w + lenWidth)" "pos = store_size s"
    "s' = s\<lparr>File := f2, buf := b2, store_size := store_size s + word_of_nat (w + lenWidth)\<rparr>"
    by (auto simp add: store_Append_def Let_def)
  from bufio_Write_ok [OF w0] bufio_Write_ok [OF w2 [unfolded e2]] r
  show ?thesis by (simp add: stream_def frame_def lenWidth_def)
qed

lemma store_Append_healthy:
  assumes "\<not> wfault (File s)" "werr (buf s) = None"
  shows "\<exists>s'. store_Append s p = ((word_of_nat (length p + 8), store_size s, None), s')"
proof -
  from bufio_Write_healthy [OF assms, of "PutUint64 (word_of_nat (length p))"]
  obtain b1 f1 where w0: "bufio_Write (buf s) (File s) (PutUint64 (word_of_nat (length p)))
      = (length (PutUint64 (word_of_nat (length p))), None, b1, f1)" by blast
  from bufio_Write_ok [OF w0] assms have h1: "\<not> wfault f1" "werr b1 = None" by simp_all
  from bufio_Write_healthy [OF h1, of p]
  obtain b2 f2 where w2: "bufio_Write b1 f1 p = (length p, None, b2, f2)" by blast
  from w0 w2 show ?thesis
    by (simp add: store_Append_def binary_Write_def lenWidth_def)
qed


text \<open>
  C5. A successful \<open>store.Append(p)\<close> on a store of size \<open>S\<close> returns \<open>8 + len(p)\<close> bytes
  written and the position \<open>S\<close>, and leaves the size at \<open>S + 8 + len(p)\<close>, in \<open>uint64\<close>
  arithmetic, and as numbers wherever those fit 64 bits; the entry \<open>frame p\<close> is what
  the call added to the bytes of the store.
\<close>

theorem store_Append_result:
  assumes "store_Append s p = ((n, pos, None), s')"
  shows "n = word_of_nat (8 + length p) \<and> pos = store_size s \<and>
     store_size s' = store_size s + 8 + word_of_nat (length p) \<and>
     (8 + length p < 2 ^ 64 \<longrightarrow> unat n = 8 + length p) \<and>
     (unat (store_size s) + 8 + length p < 2 ^ 64 \<longrightarrow>
        unat (store_size s') = unat (store_size s) + 8 + length p) \<and>
     stream s' = stream s @ frame p"
proof -
  note ok = store_Append_ok [OF assms]
  have n: "n = word_of_nat (8 + length p)" using ok by (simp add: add.commute)
  have sz: "store_size s' = store_size s + 8 + word_of_nat (length p)" using ok by simp
  have un: "unat n = 8 + length p" if "8 + length p < 2 ^ 64"
    using that n by (simp add: unat_word_of_nat_64 del: of_nat_add)
  have us: "unat (store_size s') = unat (store_size s) + 8 + length p"
    if b: "unat (store_size s) + 8 + length p < 2 ^ 64"
  proof -
    from b have "unat (word_of_nat (length p + 8) :: uint64) = length p + 8"
      by (simp add: unat_word_of_nat_64 del: of_nat_add)
    moreover from ok have "store_size s' = store_size s + word_of_nat (length p + 8)" by simp
    ultimately show ?thesis using b
      by (simp add: unat_add_lem [THEN iffD1] del: of_nat_add)
  qed
  from ok n sz un us show ?thesis by blast
qed

theorem store_Append_result_witness:
  "fst (store_Append (store fresh_sample) [1, 2, 3]) = (11, 0, None) \<and>
   store_size (snd (store_Append (store fresh_sample) [1, 2, 3])) = 11 \<and>
   unat (store_size (snd (store_Append (store fresh_sample) [1, 2, 3]))) = 8 + length [1 :: byte, 2, 3] \<and>
   stream (snd (store_Append (store fresh_sample) [1, 2, 3])) = [0, 0, 0, 0, 0, 0, 0, 3, 1, 2, 3]"
proof -
  have h: "store_Append (store fresh_sample) [1, 2, 3]
      = ((11, 0, None),
         \<lparr>File = \<lparr>fbytes = [], wfault = False\<rparr>,
          buf = \<lparr>wbuf = [0, 0, 0, 0, 0, 0, 0, 3, 1, 2, 3], werr = None\<rparr>, store_size = 11\<rparr>)"
    by (simp add: store_defs fresh_sample_def bufio_Write_loop.simps)
  from store_Append_result [OF h] show ?thesis
    by (simp add: h stream_def)
qed

section \<open>nearestMultiple\<close>

lemma nearestMultiple_unat:
  fixes j k :: uint64
  assumes "k \<noteq> 0"
  shows "unat ((j div k) * k) = (unat j div unat k) * unat k"
proof -
  have "(unat j div unat k) * unat k \<le> unat j" by simp
  also have "unat j < 2 ^ 64" using unsigned_less [of j] by simp
  finally have "(unat j div unat k) * unat k < 2 ^ LENGTH(64)" by simp
  then show ?thesis
    by (simp add: unat_mult_lem [THEN iffD1] unat_div)
qed

text \<open>
  C9. For \<open>k > 0\<close>, \<open>nearestMultiple(j, k)\<close> is \<open>(j / k) * k\<close>, the largest multiple of \<open>k\<close>
  that does not exceed \<open>j\<close>; the guard \<open>j >= 0\<close> holds for every \<open>uint64\<close>, so the branch
  after it is never taken.
\<close>

theorem nearestMultiple_rounds_down:
  fixes j k :: uint64
  assumes "k \<noteq> 0"
  shows "nearestMultiple j k = Inr ((j div k) * k) \<and> 0 \<le> j \<and>
     unat ((j div k) * k) = (unat j div unat k) * unat k \<and>
     unat k dvd unat ((j div k) * k) \<and>
     (j div k) * k \<le> j \<and>
     (\<forall>m. unat k dvd m \<and> m \<le> unat j \<longrightarrow> m \<le> unat ((j div k) * k))"
proof -
  have k: "0 < unat k" using assms by (simp add: unat_gt_0)
  have u: "unat ((j div k) * k) = (unat j div unat k) * unat k"
    by (rule nearestMultiple_unat [OF assms])
  have le: "(j div k) * k \<le> j"
    by (simp add: word_le_nat_alt u)
  have mx: "m \<le> unat ((j div k) * k)" if "unat k dvd m" "m \<le> unat j" for m
  proof -
    from that(1) obtain q where q: "m = unat k * q" by (auto simp add: dvd_def)
    with that(2) k have "q \<le> unat j div unat k"
      by (simp add: less_eq_div_iff_mult_less_eq mult.commute)
    then have "q * unat k \<le> (unat j div unat k) * unat k" by (rule mult_le_mono1)
    with q u show ?thesis by (simp add: mult.commute)
  qed
  from assms u le mx show ?thesis by (simp add: nearestMultiple_def)
qed

theorem nearestMultiple_rounds_down_witness:
  "(12 :: uint64) \<noteq> 0 \<and> nearestMultiple 1024 12 = Inr 1020 \<and>
   unat (1024 div 12 * 12 :: uint64) = 1020"
proof -
  have h: "(12 :: uint64) \<noteq> 0" by simp
  from nearestMultiple_rounds_down [OF h, of 1024] show ?thesis by simp
qed

section \<open>The segment\<close>

lemma newSegment_fresh_sample:
  "fst (newSegment empty_dir 0 sample_config) = Inr fresh_sample"
  by (simp add: newSegment_def empty_dir_def open_store_file_def open_index_file_def newStore_def
      newIndex_def nearestMultiple_def entWidth_def index_Read_def bufio_NewWriter_def
      sample_config_def fresh_sample_def Let_def)

text \<open>
  C8. \<open>IsMaxed\<close> is true exactly when the store's size has reached \<open>MaxStoreBytes\<close> or the
  index's size has reached \<open>MaxIndexBytes\<close>, the sizes compared as unsigned numbers.
\<close>

theorem segment_IsMaxed_iff:
  "segment_IsMaxed s \<longleftrightarrow>
     unat (MaxStoreBytes (config s)) \<le> unat (store_size (store s)) \<or>
     unat (MaxIndexBytes (config s)) \<le> unat (index_size (index s))"
  by (simp add: segment_IsMaxed_def word_le_nat_alt)

text \<open>
  C10. When \<open>segment.Append\<close> returns an error, \<open>nextOffset\<close> is what it was before the
  call, and the caller's record carries the offset that was attempted.
\<close>

theorem segment_Append_error_keeps_nextOffset:
  "fst (segment_Append cd s r) = Inl e \<Longrightarrow>
     nextOffset (fst (snd (segment_Append cd s r))) = nextOffset s \<and>
     Offset (snd (snd (segment_Append cd s r))) = nextOffset s"
  by (auto simp add: segment_Append_def Let_def split: sum.splits prod.splits)

text \<open>
  The witness: an index without room (\<open>MaxIndexBytes = 0\<close>) refuses the entry; the store
  has grown by the record's eleven bytes and their length, \<open>nextOffset\<close> has not moved.
\<close>

theorem segment_Append_error_keeps_nextOffset_witness:
  "fst (segment_Append sample_codec (fresh_sample\<lparr>index := \<lparr>entries = [], mmap_len = 0\<rparr>\<rparr>)
          \<lparr>Value = [1, 2, 3], Offset = 9\<rparr>) = Inl ErrCapacity \<and>
   nextOffset (fst (snd (segment_Append sample_codec
          (fresh_sample\<lparr>index := \<lparr>entries = [], mmap_len = 0\<rparr>\<rparr>)
          \<lparr>Value = [1, 2, 3], Offset = 9\<rparr>))) = 0 \<and>
   Offset (snd (snd (segment_Append sample_codec
          (fresh_sample\<lparr>index := \<lparr>entries = [], mmap_len = 0\<rparr>\<rparr>)
          \<lparr>Value = [1, 2, 3], Offset = 9\<rparr>))) = 0 \<and>
   store_size (store (fst (snd (segment_Append sample_codec
          (fresh_sample\<lparr>index := \<lparr>entries = [], mmap_len = 0\<rparr>\<rparr>)
          \<lparr>Value = [1, 2, 3], Offset = 9\<rparr>)))) = 19"
proof -
  have h: "fst (segment_Append sample_codec (fresh_sample\<lparr>index := \<lparr>entries = [], mmap_len = 0\<rparr>\<rparr>)
          \<lparr>Value = [1, 2, 3], Offset = 9\<rparr>) = Inl ErrCapacity"
    by (simp add: segment_defs store_defs bufio_Write_loop.simps)
  have g: "store_size (store (fst (snd (segment_Append sample_codec
          (fresh_sample\<lparr>index := \<lparr>entries = [], mmap_len = 0\<rparr>\<rparr>)
          \<lparr>Value = [1, 2, 3], Offset = 9\<rparr>)))) = 19"
    by (simp add: segment_defs store_defs bufio_Write_loop.simps)
  from segment_Append_error_keeps_nextOffset [OF h] h g show ?thesis
    by (simp add: fresh_sample_def)
qed

subsection \<open>Offsets assigned by a run of appends\<close>

lemma segment_Append_Inr:
  assumes "segment_Append cd s r = (Inr off, s', r')"
  shows "off = nextOffset s \<and> r' = r\<lparr>Offset := nextOffset s\<rparr> \<and>
     nextOffset s' = nextOffset s + 1 \<and> baseOffset s' = baseOffset s \<and> config s' = config s"
  using assms
  by (auto simp add: segment_Append_def Let_def split: sum.splits prod.splits)

lemma append_all_length:
  "append_all cd s rs = (out, s') \<Longrightarrow> length out = length rs"
  by (induction rs arbitrary: s out) (auto split: prod.splits)

lemma append_all_offsets:
  assumes "append_all cd s rs = (out, s')" "list_all succeeded out"
  shows "nextOffset s' = nextOffset s + word_of_nat (length rs) \<and> baseOffset s' = baseOffset s \<and>
     (\<forall>i<length rs. out ! i = (Inr (nextOffset s + word_of_nat i),
                                  (rs ! i)\<lparr>Offset := nextOffset s + word_of_nat i\<rparr>))"
  using assms
proof (induction rs arbitrary: s out)
  case Nil
  then show ?case by simp
next
  case (Cons r rs)
  obtain res s1 r' where a: "segment_Append cd s r = (res, s1, r')"
    by (cases "segment_Append cd s r") auto
  obtain out1 where b: "append_all cd s1 rs = (out1, s')" and o: "out = (res, r') # out1"
    using Cons.prems(1) a by (auto split: prod.splits)
  from Cons.prems(2) o have ok0: "succeeded (res, r')" and ok1: "list_all succeeded out1"
    by simp_all
  from ok0 obtain off where res: "res = Inr off"
    by (cases res) (simp_all add: succeeded_def)
  note h = segment_Append_Inr [OF a [unfolded res]]
  note ih = Cons.IH [OF b ok1]
  have "out ! i = (Inr (nextOffset s + word_of_nat i), ((r # rs) ! i)\<lparr>Offset := nextOffset s + word_of_nat i\<rparr>)"
    if "i < length (r # rs)" for i
  proof (cases i)
    case 0
    with o res h show ?thesis by simp
  next
    case (Suc j)
    with that ih o h show ?thesis by (simp add: add.assoc)
  qed
  with ih h show ?case by (simp add: add.assoc)
qed

text \<open>
  C4. On a segment whose next offset is its base offset \<open>B\<close>, \<open>N\<close> calls of
  \<open>segment.Append\<close> that all succeed return \<open>B, B+1, ..., B+N-1\<close> in this order
  (\<open>uint64\<close> arithmetic; the numbers themselves when \<open>B + N\<close> does not pass \<open>2^64\<close>), and each
  record's \<open>Offset\<close> field is the offset its call returned.
\<close>

theorem append_all_offsets_from_base:
  assumes "nextOffset s = baseOffset s" "append_all cd s rs = (out, s')" "list_all succeeded out"
  shows "length out = length rs \<and>
     (\<forall>i<length rs. fst (out ! i) = Inr (baseOffset s + word_of_nat i) \<and>
                    Offset (snd (out ! i)) = baseOffset s + word_of_nat i \<and>
                    (unat (baseOffset s) + length rs \<le> 2 ^ 64 \<longrightarrow>
                       unat (baseOffset s + word_of_nat i) = unat (baseOffset s) + i)) \<and>
     nextOffset s' = baseOffset s + word_of_nat (length rs)"
proof -
  note h = append_all_offsets [OF assms(2,3)]
  have "unat (baseOffset s + word_of_nat i) = unat (baseOffset s) + i"
    if "i < length rs" "unat (baseOffset s) + length rs \<le> 2 ^ 64" for i
  proof -
    from that have i: "i < 2 ^ 64" and b: "unat (baseOffset s) + i < 2 ^ 64" by simp_all
    from i have "unat (word_of_nat i :: uint64) = i" by (rule unat_word_of_nat_64)
    with b show ?thesis by (simp add: unat_add_lem [THEN iffD1])
  qed
  with h assms(1) append_all_length [OF assms(2)] show ?thesis by simp
qed


theorem append_all_offsets_from_base_witness:
  "nextOffset fresh_sample = baseOffset fresh_sample \<and>
   map fst (fst (append_all sample_codec fresh_sample
      [\<lparr>Value = [1], Offset = 9\<rparr>, \<lparr>Value = [2, 3], Offset = 9\<rparr>])) = [Inr 0, Inr 1] \<and>
   map snd (fst (append_all sample_codec fresh_sample
      [\<lparr>Value = [1], Offset = 9\<rparr>, \<lparr>Value = [2, 3], Offset = 9\<rparr>]))
     = [\<lparr>Value = [1], Offset = 0\<rparr>, \<lparr>Value = [2, 3], Offset = 1\<rparr>] \<and>
   nextOffset (snd (append_all sample_codec fresh_sample
      [\<lparr>Value = [1], Offset = 9\<rparr>, \<lparr>Value = [2, 3], Offset = 9\<rparr>])) = 2"
proof -
  let ?rs = "[\<lparr>Value = [1], Offset = 9\<rparr>, \<lparr>Value = [2 :: byte, 3], Offset = 9\<rparr>]"
  have h1: "nextOffset fresh_sample = baseOffset fresh_sample"
    by (simp add: fresh_sample_def)
  have h2: "append_all sample_codec fresh_sample ?rs
      = (fst (append_all sample_codec fresh_sample ?rs),
         snd (append_all sample_codec fresh_sample ?rs))"
    by (rule prod.collapse [symmetric])
  have ev: "fst (append_all sample_codec fresh_sample ?rs)
      = [(Inr 0, \<lparr>Value = [1], Offset = 0\<rparr>), (Inr 1, \<lparr>Value = [2, 3], Offset = 1\<rparr>)]"
    by (simp add: segment_defs store_defs bufio_Write_loop.simps)
  have h3: "list_all succeeded (fst (append_all sample_codec fresh_sample ?rs))"
    unfolding ev by (simp add: succeeded_def)
  from append_all_offsets_from_base [OF h1 h2 h3] h1 ev show ?thesis
    by (simp add: fresh_sample_def)
qed

subsection \<open>The invariant of nextOffset\<close>

lemma offset_inv_cong:
  "offset_inv s \<Longrightarrow> index s' = index s \<Longrightarrow> baseOffset s' = baseOffset s \<Longrightarrow>
     nextOffset s' = nextOffset s \<Longrightarrow> offset_inv s'"
  by (simp add: offset_inv_def)

lemma unat_ucast_32_le: "unat (ucast (x :: uint64) :: uint32) \<le> unat x"
  by (simp add: unsigned_ucast_eq take_bit_eq_mod)

lemma unat_uint32_less: "unat (y :: uint32) < 2 ^ 32"
  using unsigned_less [of y] by simp

lemma unat_uint64_less: "unat (y :: uint64) < 2 ^ 64"
  using unsigned_less [of y] by simp

lemma unat_ucast_32_64: "unat (ucast (y :: uint32) :: uint64) = unat y"
  using unat_uint32_less [of y] by (simp add: unsigned_ucast_eq take_bit_eq_mod)

lemma unat_Suc_64: "unat (x :: uint64) + 1 < 2 ^ 64 \<Longrightarrow> unat (x + 1) = unat x + 1"
  by (simp add: unat_add_lem [THEN iffD1])

lemma newSegment_result:
  assumes "newSegment d b c = (res, d')"
  shows "\<exists>s. res = Inr s \<and> baseOffset s = b \<and> config s = c \<and>
     entries (index s) = open_index_file d b \<and>
     nextOffset s = (if open_index_file d b = [] then b
                     else b + ucast (fst (last (open_index_file d b))) + 1)"
  using assms
  by (auto simp add: newSegment_def newStore_def newIndex_def nearestMultiple_def entWidth_def
      index_Read_def open_index_file_def Let_def split: sum.splits prod.splits if_splits)

lemma segment_Close_index:
  "segment_Close s d = (e, d') \<Longrightarrow> open_index_file d' (baseOffset s) = entries (index s)"
  by (auto simp add: segment_Close_def index_Close_def open_index_file_def Let_def
      split: prod.splits)

lemma offset_inv_reopened:
  assumes "entries (index s') = es" "baseOffset s' = b"
    "nextOffset s' = (if es = [] then b else b + ucast (fst (last es)) + 1)"
    "length es * entWidth < 2 ^ 64" "es \<noteq> [] \<longrightarrow> unat (fst (last es)) < length es"
  shows "offset_inv s'"
proof (cases "es = []")
  case True
  with assms show ?thesis by (simp add: offset_inv_def)
next
  case False
  let ?o = "fst (last es)"
  have "unat (ucast ?o :: uint64) + 1 < 2 ^ 64"
    using unat_uint32_less [of ?o] by (simp add: unat_ucast_32_64)
  then have "unat (ucast ?o + 1 :: uint64) = unat ?o + 1"
    by (simp add: unat_Suc_64 unat_ucast_32_64)
  moreover have "nextOffset s' - baseOffset s' = ucast ?o + 1"
    using assms False by simp
  ultimately show ?thesis using assms False by (simp add: offset_inv_def)
qed

lemma offset_inv_newSegment:
  assumes "newSegment d b c = (Inr s', d')" "open_index_file d b = entries (index s)"
    "offset_inv s"
  shows "offset_inv s'"
proof -
  from newSegment_result [OF assms(1)] assms(2)
  have r: "entries (index s') = entries (index s)" "baseOffset s' = b"
    "nextOffset s' = (if entries (index s) = [] then b
                      else b + ucast (fst (last (entries (index s)))) + 1)"
    by auto
  from assms(3) have "length (entries (index s)) * entWidth < 2 ^ 64"
    "entries (index s) \<noteq> [] \<longrightarrow> unat (fst (last (entries (index s)))) < length (entries (index s))"
    by (auto simp add: offset_inv_def split: if_splits)
  with r show ?thesis by (rule offset_inv_reopened)
qed

lemma offset_inv_fresh:
  assumes "newSegment empty_dir b c = (Inr s, d')"
  shows "offset_inv s \<and> baseOffset s = b"
  using newSegment_result [OF assms]
  by (auto simp add: offset_inv_def open_index_file_def empty_dir_def)

lemma segment_Append_cases:
  assumes "segment_Append cd s r = (res, s', r')"
  shows "baseOffset s' = baseOffset s \<and>
     ((\<exists>e. res = Inl e \<and> index s' = index s \<and> nextOffset s' = nextOffset s) \<or>
      (\<exists>pos. res = Inr (nextOffset s) \<and> nextOffset s' = nextOffset s + 1 \<and>
         entries (index s') =
           entries (index s) @ [(ucast (nextOffset s - baseOffset s), pos)] \<and>
         (length (entries (index s)) + 1) * entWidth \<le> unat (mmap_len (index s)) \<and>
         mmap_len (index s') = mmap_len (index s)))"
  using assms
  by (auto simp add: segment_Append_def index_Write_def Let_def
      split: sum.splits prod.splits if_splits)

lemma offset_inv_Append:
  assumes "segment_Append cd s r = (res, s', r')" "offset_inv s"
  shows "offset_inv s'"
proof -
  from segment_Append_cases [OF assms(1)]
  consider (err) "baseOffset s' = baseOffset s" "index s' = index s" "nextOffset s' = nextOffset s"
    | (ok) pos where "baseOffset s' = baseOffset s" "nextOffset s' = nextOffset s + 1"
        "entries (index s') = entries (index s) @ [(ucast (nextOffset s - baseOffset s), pos)]"
        "(length (entries (index s)) + 1) * entWidth \<le> unat (mmap_len (index s))"
    by blast
  then show ?thesis
  proof cases
    case err
    show ?thesis by (rule offset_inv_cong [OF assms(2) err(2) err(1) err(3)])
  next
    case ok
    let ?n = "length (entries (index s))"
    let ?x = "nextOffset s - baseOffset s"
    have cap: "(?n + 1) * entWidth < 2 ^ 64"
      using ok(4) unat_uint64_less [of "mmap_len (index s)"] by simp
    have dn: "unat ?x \<le> ?n"
      using assms(2) by (auto simp add: offset_inv_def split: if_splits)
    from cap have "?n + 1 < 2 ^ 64" by (simp add: entWidth_def)
    with dn have "unat ?x + 1 < 2 ^ 64" by simp
    then have "unat (?x + 1) = unat ?x + 1" by (rule unat_Suc_64)
    moreover have "nextOffset s' - baseOffset s' = ?x + 1" using ok by simp
    ultimately have d': "unat (nextOffset s' - baseOffset s') = unat ?x + 1" by simp
    have l': "unat (fst (last (entries (index s')))) \<le> ?n"
      using unat_ucast_32_le [of ?x] dn ok(3) by simp
    have n': "length (entries (index s')) = ?n + 1" "entries (index s') \<noteq> []"
      using ok(3) by simp_all
    show ?thesis
      unfolding offset_inv_def d' n'(1) using cap dn l' n'(2) by simp
  qed
qed

lemma segment_Read_frame:
  "segment_Read cd s off = (res, s') \<Longrightarrow>
     index s' = index s \<and> baseOffset s' = baseOffset s \<and> nextOffset s' = nextOffset s"
  by (auto simp add: segment_Read_def split: sum.splits prod.splits)

lemma offset_inv_step:
  assumes "offset_inv s"
  shows "offset_inv (step cd s ev) \<and> baseOffset (step cd s ev) = baseOffset s"
proof (cases ev)
  case (EvAppend r)
  obtain res s' r' where a: "segment_Append cd s r = (res, s', r')"
    by (cases "segment_Append cd s r") auto
  from offset_inv_Append [OF a assms] segment_Append_cases [OF a] a EvAppend
  show ?thesis by simp
next
  case (EvRead off)
  obtain res s' where a: "segment_Read cd s off = (res, s')"
    by (cases "segment_Read cd s off") auto
  from segment_Read_frame [OF a] have f: "index s' = index s" "baseOffset s' = baseOffset s"
    "nextOffset s' = nextOffset s" by simp_all
  from offset_inv_cong [OF assms f] f(2) a EvRead show ?thesis by simp
next
  case (EvFault b)
  have "offset_inv (set_wfault b s)"
    by (rule offset_inv_cong [OF assms]) (simp_all add: set_wfault_def)
  with EvFault show ?thesis by (simp add: set_wfault_def)
next
  case (EvReopen c)
  obtain e d where cl: "segment_Close s empty_dir = (e, d)"
    by (cases "segment_Close s empty_dir") auto
  obtain res d' where ns: "newSegment d (baseOffset s) c = (res, d')"
    by (cases "newSegment d (baseOffset s) c") auto
  from newSegment_result [OF ns] obtain s' where s': "res = Inr s'" "baseOffset s' = baseOffset s"
    by blast
  from offset_inv_newSegment [OF ns [unfolded s'(1)] segment_Close_index [OF cl] assms]
  have "offset_inv s'" .
  with s' cl ns EvReopen show ?thesis by (simp add: reopen_def)
qed

lemma run_Cons: "run cd s (ev # evs) = run cd (step cd s ev) evs"
  by (simp add: run_def)

lemma offset_inv_run:
  "offset_inv s \<Longrightarrow> offset_inv (run cd s evs) \<and> baseOffset (run cd s evs) = baseOffset s"
proof (induction evs arbitrary: s)
  case Nil
  then show ?case by (simp add: run_def)
next
  case (Cons ev evs)
  from offset_inv_step [OF Cons.prems, of cd ev]
  have a: "offset_inv (step cd s ev)" and b: "baseOffset (step cd s ev) = baseOffset s"
    by blast+
  from Cons.IH [OF a] have "offset_inv (run cd (step cd s ev) evs)"
    and "baseOffset (run cd (step cd s ev) evs) = baseOffset (step cd s ev)" by blast+
  then show ?case unfolding run_Cons b by blast
qed

lemma offset_inv_facts:
  assumes "offset_inv s"
  shows "(nextOffset s = baseOffset s \<longleftrightarrow> entries (index s) = []) \<and>
     (unat (baseOffset s) + length (entries (index s)) < 2 ^ 64 \<longrightarrow> baseOffset s \<le> nextOffset s)"
proof -
  let ?x = "nextOffset s - baseOffset s"
  have n: "nextOffset s = baseOffset s + ?x" by simp
  have a: "nextOffset s = baseOffset s \<longleftrightarrow> entries (index s) = []"
  proof (cases "entries (index s) = []")
    case True
    with assms show ?thesis by (simp add: offset_inv_def)
  next
    case False
    with assms have "1 \<le> unat ?x" by (simp add: offset_inv_def)
    then have "?x \<noteq> 0" by (auto simp add: unat_eq_0)
    with False show ?thesis by simp
  qed
  have b: "baseOffset s \<le> nextOffset s"
    if "unat (baseOffset s) + length (entries (index s)) < 2 ^ 64"
  proof -
    from assms have "unat ?x \<le> length (entries (index s))"
      by (auto simp add: offset_inv_def split: if_splits)
    with that have "unat (baseOffset s) + unat ?x < 2 ^ LENGTH(64)" by simp
    then have "baseOffset s \<le> baseOffset s + ?x"
      by (rule no_olen_add_nat [THEN iffD2])
    then show ?thesis by simp
  qed
  from a b show ?thesis by blast
qed

text \<open>
  C7 (amended). In every state that a segment opened in an empty directory reaches by
  appends, reads, changes of the file's health and reopenings, \<open>nextOffset\<close> equals
  \<open>baseOffset\<close> exactly when the index holds no entry; and \<open>nextOffset >= baseOffset\<close>
  holds whenever the base offset plus the number of entries stays below \<open>2^64\<close>.
\<close>

theorem nextOffset_invariant:
  assumes "fst (newSegment empty_dir b c) = Inr s0"
  shows "baseOffset (run cd s0 evs) = b \<and>
     (nextOffset (run cd s0 evs) = baseOffset (run cd s0 evs)
        \<longleftrightarrow> entries (index (run cd s0 evs)) = []) \<and>
     (unat b + length (entries (index (run cd s0 evs))) < 2 ^ 64 \<longrightarrow>
        baseOffset (run cd s0 evs) \<le> nextOffset (run cd s0 evs))"
proof -
  from assms have "newSegment empty_dir b c = (Inr s0, snd (newSegment empty_dir b c))"
    by (metis prod.collapse)
  from offset_inv_fresh [OF this] have i: "offset_inv s0" "baseOffset s0 = b" by simp_all
  from offset_inv_run [OF i(1), of cd evs] i(2) offset_inv_facts [of "run cd s0 evs"]
  show ?thesis by simp
qed


theorem nextOffset_invariant_witness:
  "fst (newSegment empty_dir 0 sample_config) = Inr fresh_sample \<and>
   baseOffset (run sample_codec fresh_sample
      [EvAppend \<lparr>Value = [1], Offset = 9\<rparr>, EvRead 0, EvFault True, EvReopen sample_config,
       EvAppend \<lparr>Value = [2], Offset = 9\<rparr>]) = 0 \<and>
   length (entries (index (run sample_codec fresh_sample
      [EvAppend \<lparr>Value = [1], Offset = 9\<rparr>, EvRead 0, EvFault True, EvReopen sample_config,
       EvAppend \<lparr>Value = [2], Offset = 9\<rparr>]))) = 2 \<and>
   nextOffset (run sample_codec fresh_sample
      [EvAppend \<lparr>Value = [1], Offset = 9\<rparr>, EvRead 0, EvFault True, EvReopen sample_config,
       EvAppend \<lparr>Value = [2], Offset = 9\<rparr>]) \<noteq> 0 \<and>
   0 \<le> nextOffset (run sample_codec fresh_sample
      [EvAppend \<lparr>Value = [1], Offset = 9\<rparr>, EvRead 0, EvFault True, EvReopen sample_config,
       EvAppend \<lparr>Value = [2], Offset = 9\<rparr>])"
proof -
  let ?evs = "[EvAppend \<lparr>Value = [1], Offset = 9\<rparr>, EvRead 0, EvFault True,
    EvReopen sample_config, EvAppend \<lparr>Value = [2], Offset = 9\<rparr>]"
  have ev: "length (entries (index (run sample_codec fresh_sample ?evs))) = 2"
    by (simp add: run_defs segment_defs store_defs bufio_Write_loop.simps Uint64_def)
  then have ne: "entries (index (run sample_codec fresh_sample ?evs)) \<noteq> []" by auto
  note inv = nextOffset_invariant [OF newSegment_fresh_sample, of sample_codec ?evs]
  from inv have b: "baseOffset (run sample_codec fresh_sample ?evs) = 0" by blast
  from inv ne have "nextOffset (run sample_codec fresh_sample ?evs)
      \<noteq> baseOffset (run sample_codec fresh_sample ?evs)" by blast
  then have n: "nextOffset (run sample_codec fresh_sample ?evs) \<noteq> 0" unfolding b .
  from newSegment_fresh_sample b ev n show ?thesis by simp
qed

text \<open>
  The claim as stated fails where the offsets wrap: from base offset \<open>2^64 - 1\<close> one
  append leaves \<open>nextOffset = 0\<close>, below the base offset.
\<close>

theorem nextOffset_wraps_counterexample:
  "fst (newSegment empty_dir (- 1) sample_config) = Inr (fresh_at (- 1)) \<and>
   fst (segment_Append sample_codec (fresh_at (- 1)) \<lparr>Value = [1, 2, 3], Offset = 0\<rparr>)
     = Inr (- 1) \<and>
   baseOffset (run sample_codec (fresh_at (- 1)) [EvAppend \<lparr>Value = [1, 2, 3], Offset = 0\<rparr>])
     = - 1 \<and>
   nextOffset (run sample_codec (fresh_at (- 1)) [EvAppend \<lparr>Value = [1, 2, 3], Offset = 0\<rparr>])
     = 0 \<and>
   \<not> baseOffset (run sample_codec (fresh_at (- 1)) [EvAppend \<lparr>Value = [1, 2, 3], Offset = 0\<rparr>])
      \<le> nextOffset (run sample_codec (fresh_at (- 1))
            [EvAppend \<lparr>Value = [1, 2, 3], Offset = 0\<rparr>])"
proof -
  have a: "fst (segment_Append sample_codec (fresh_at (- 1)) \<lparr>Value = [1, 2, 3], Offset = 0\<rparr>)
     = Inr (- 1)"
    by (simp add: fresh_at_def segment_defs store_defs bufio_Write_loop.simps)
  have b: "baseOffset (run sample_codec (fresh_at (- 1))
      [EvAppend \<lparr>Value = [1, 2, 3], Offset = 0\<rparr>]) = - 1"
    by (simp add: run_def fresh_at_def segment_defs store_defs bufio_Write_loop.simps)
  have c: "nextOffset (run sample_codec (fresh_at (- 1))
      [EvAppend \<lparr>Value = [1, 2, 3], Offset = 0\<rparr>]) = 0"
    by (simp add: run_def fresh_at_def segment_defs store_defs bufio_Write_loop.simps)
  have d: "\<not> (- 1 :: uint64) \<le> 0" by simp
  from a newSegment_fresh_at [of "- 1"] d show ?thesis unfolding b c by simp
qed

subsection \<open>Reads outside the segment\<close>

lemma sint_nonneg_unat:
  fixes x :: uint64
  assumes "0 \<le> sint x"
  shows "nat (sint x) = unat x"
proof -
  have "sint x < 2 ^ 64" using sint_lt [of x] by simp
  with assms have "take_bit 64 (sint x) = sint x" by (simp add: take_bit_int_eq_self)
  moreover have "uint x = take_bit 64 (sint x)" using uint_sint [of x] by simp
  ultimately have "sint x = uint x" by simp
  then show ?thesis by simp
qed

lemma sint_minus1_iff: "sint (x :: uint64) = - 1 \<longleftrightarrow> x = - 1"
proof
  assume "sint x = - 1"
  then have "sint x = sint (- 1 :: uint64)" by simp
  then show "x = - 1" by (rule signed_word_eqI)
qed simp

lemma index_Read_beyond:
  assumes "length (entries i) \<le> unat rel" "rel \<noteq> - 1"
  shows "index_Read i rel = Inl ErrNotFound"
proof -
  from assms(2) have "sint rel \<noteq> - 1" by (simp add: sint_minus1_iff)
  moreover have "\<not> nat (sint rel) < length (entries i)" if "0 \<le> sint rel"
    using sint_nonneg_unat [OF that] assms(1) by simp
  ultimately show ?thesis by (auto simp add: index_Read_def)
qed

lemma rel_beyond:
  fixes b off :: uint64
  assumes "unat b + n < 2 ^ 64" "off < b \<or> b + word_of_nat n \<le> off"
  shows "n \<le> unat (off - b)"
  using assms(2)
proof
  assume lt: "off < b"
  then have "unat off < unat b" by (simp add: word_less_nat_alt)
  then have "unat (off - b) = unat off + 2 ^ 64 - unat b"
    by (simp add: unat_sub_if_size word_size)
  with assms(1) show ?thesis by simp
next
  assume le: "b + word_of_nat n \<le> off"
  from assms(1) have n: "unat (word_of_nat n :: uint64) = n"
    by (simp add: unat_word_of_nat_64)
  with assms(1) have "unat (b + word_of_nat n) = unat b + n"
    by (simp add: unat_add_lem [THEN iffD1])
  with le have l: "unat b + n \<le> unat off" by (simp add: word_le_nat_alt)
  then have "b \<le> off" by (simp add: word_le_nat_alt)
  then have "unat (off - b) = unat off - unat b" by (rule unat_sub)
  with l show ?thesis by simp
qed

lemma segment_Read_out_of_range:
  assumes "nextOffset s = baseOffset s + word_of_nat (length (entries (index s)))"
    "unat (baseOffset s) + length (entries (index s)) < 2 ^ 64"
    "off < baseOffset s \<or> nextOffset s \<le> off" "off \<noteq> baseOffset s - 1"
  shows "segment_Read cd s off = ((None, Some ErrNotFound), s)"
proof -
  from assms(3) have "off < baseOffset s \<or>
      baseOffset s + word_of_nat (length (entries (index s))) \<le> off"
    unfolding assms(1) .
  from rel_beyond [OF assms(2) this]
  have a: "length (entries (index s)) \<le> unat (off - baseOffset s)" .
  have b: "off - baseOffset s \<noteq> - 1"
  proof
    assume "off - baseOffset s = - 1"
    then have "off = baseOffset s - 1" by (simp add: algebra_simps)
    with assms(4) show False by simp
  qed
  from index_Read_beyond [OF a b] show ?thesis by (simp add: segment_Read_def)
qed


lemma ucast_32_roundtrip:
  assumes "m < 2 ^ 32"
  shows "(ucast (ucast (word_of_nat m :: uint64) :: uint32) :: uint64) = word_of_nat m"
proof -
  from assms have m: "unat (word_of_nat m :: uint64) = m"
    by (simp add: unat_word_of_nat_64)
  have "unat (ucast (ucast (word_of_nat m :: uint64) :: uint32) :: uint64)
      = unat (word_of_nat m :: uint64) mod 2 ^ 32"
    by (simp add: unat_ucast_32_64) (simp add: unsigned_ucast_eq take_bit_eq_mod)
  also have "\<dots> = unat (word_of_nat m :: uint64)" using assms m by simp
  finally show ?thesis by (simp only: word_unat_eq_iff)
qed

lemma exact_inv_cong:
  "exact_inv s \<Longrightarrow> index s' = index s \<Longrightarrow> baseOffset s' = baseOffset s \<Longrightarrow>
     nextOffset s' = nextOffset s \<Longrightarrow> exact_inv s'"
  by (simp add: exact_inv_def)

lemma exact_inv_Append:
  assumes "segment_Append cd s r = (res, s', r')" "exact_inv s"
  shows "exact_inv s'"
proof -
  from segment_Append_cases [OF assms(1)]
  consider (err) "baseOffset s' = baseOffset s" "index s' = index s" "nextOffset s' = nextOffset s"
    | (ok) pos where "baseOffset s' = baseOffset s" "nextOffset s' = nextOffset s + 1"
        "entries (index s') = entries (index s) @ [(ucast (nextOffset s - baseOffset s), pos)]"
    by blast
  then show ?thesis
  proof cases
    case err
    show ?thesis by (rule exact_inv_cong [OF assms(2) err(2) err(1) err(3)])
  next
    case ok
    let ?n = "length (entries (index s))"
    from assms(2) have x: "nextOffset s - baseOffset s = word_of_nat ?n"
      by (simp add: exact_inv_def)
    from assms(2) have n: "nextOffset s = baseOffset s + word_of_nat ?n"
      by (simp add: exact_inv_def)
    have n': "length (entries (index s')) = ?n + 1" "entries (index s') \<noteq> []"
      "fst (last (entries (index s'))) = ucast (word_of_nat ?n :: uint64)"
      using ok(3) x by simp_all
    show ?thesis
      unfolding exact_inv_def n'(1) n'(3) ok(1) ok(2) n using n'(2) by simp
  qed
qed

lemma exact_inv_newSegment:
  assumes "newSegment d b c = (Inr s', d')" "open_index_file d b = entries (index s)"
    "exact_inv s" "length (entries (index s)) \<le> 2 ^ 32"
  shows "exact_inv s'"
proof -
  let ?es = "entries (index s)"
  from newSegment_result [OF assms(1)] assms(2)
  have r: "entries (index s') = ?es" "baseOffset s' = b"
    "nextOffset s' = (if ?es = [] then b else b + ucast (fst (last ?es)) + 1)"
    by auto
  show ?thesis
  proof (cases "?es = []")
    case True
    with r show ?thesis by (simp add: exact_inv_def)
  next
    case False
    then obtain m where m: "length ?es = Suc m" by (cases ?es) auto
    with assms(4) have "m < 2 ^ 32" by simp
    from ucast_32_roundtrip [OF this] assms(3) False m
    have "(ucast (fst (last ?es)) :: uint64) = word_of_nat m"
      by (simp add: exact_inv_def)
    with r False m have "nextOffset s' = baseOffset s' + word_of_nat (length (entries (index s')))"
      by simp
    moreover from assms(3) False r(1)
    have "fst (last (entries (index s')))
        = ucast (word_of_nat (length (entries (index s')) - 1) :: uint64)"
      by (simp add: exact_inv_def)
    ultimately show ?thesis by (simp add: exact_inv_def)
  qed
qed

lemma step_entries:
  "baseOffset (step cd s ev) = baseOffset s \<and>
   length (entries (index s)) \<le> length (entries (index (step cd s ev))) \<and>
   (\<forall>c. ev = EvReopen c \<longrightarrow> entries (index (step cd s ev)) = entries (index s))"
proof (cases ev)
  case (EvAppend r)
  obtain res s' r' where a: "segment_Append cd s r = (res, s', r')"
    by (cases "segment_Append cd s r") auto
  from segment_Append_cases [OF a] a EvAppend show ?thesis by auto
next
  case (EvRead off)
  obtain res s' where a: "segment_Read cd s off = (res, s')"
    by (cases "segment_Read cd s off") auto
  from segment_Read_frame [OF a] a EvRead show ?thesis by simp
next
  case (EvFault b)
  then show ?thesis by (simp add: set_wfault_def)
next
  case (EvReopen c)
  obtain e d where cl: "segment_Close s empty_dir = (e, d)"
    by (cases "segment_Close s empty_dir") auto
  obtain res d' where ns: "newSegment d (baseOffset s) c = (res, d')"
    by (cases "newSegment d (baseOffset s) c") auto
  from newSegment_result [OF ns] segment_Close_index [OF cl]
  obtain s' where s': "res = Inr s'" "baseOffset s' = baseOffset s"
    "entries (index s') = entries (index s)"
    by auto
  with cl ns EvReopen show ?thesis by (simp add: reopen_def)
qed

lemma exact_inv_step:
  assumes "exact_inv s" "length (entries (index (step cd s ev))) \<le> 2 ^ 32"
  shows "exact_inv (step cd s ev)"
proof (cases ev)
  case (EvAppend r)
  obtain res s' r' where a: "segment_Append cd s r = (res, s', r')"
    by (cases "segment_Append cd s r") auto
  from exact_inv_Append [OF a assms(1)] a EvAppend show ?thesis by simp
next
  case (EvRead off)
  obtain res s' where a: "segment_Read cd s off = (res, s')"
    by (cases "segment_Read cd s off") auto
  from segment_Read_frame [OF a] have f: "index s' = index s" "baseOffset s' = baseOffset s"
    "nextOffset s' = nextOffset s" by simp_all
  from exact_inv_cong [OF assms(1) f] a EvRead show ?thesis by simp
next
  case (EvFault b)
  have "exact_inv (set_wfault b s)"
    by (rule exact_inv_cong [OF assms(1)]) (simp_all add: set_wfault_def)
  with EvFault show ?thesis by simp
next
  case (EvReopen c)
  obtain e d where cl: "segment_Close s empty_dir = (e, d)"
    by (cases "segment_Close s empty_dir") auto
  obtain res d' where ns: "newSegment d (baseOffset s) c = (res, d')"
    by (cases "newSegment d (baseOffset s) c") auto
  from newSegment_result [OF ns] obtain s' where s': "res = Inr s'" by blast
  from step_entries [of cd s ev] EvReopen assms(2)
  have "length (entries (index s)) \<le> 2 ^ 32" by simp
  from exact_inv_newSegment [OF ns [unfolded s'] segment_Close_index [OF cl] assms(1) this]
  have "exact_inv s'" .
  with s' cl ns EvReopen show ?thesis by (simp add: reopen_def)
qed

lemma run_entries:
  "baseOffset (run cd s evs) = baseOffset s \<and>
   length (entries (index s)) \<le> length (entries (index (run cd s evs)))"
proof (induction evs arbitrary: s)
  case Nil
  show ?case by (simp add: run_def)
next
  case (Cons ev evs)
  from step_entries [of cd s ev] Cons.IH [of "step cd s ev"]
  show ?case unfolding run_Cons by simp
qed

lemma exact_inv_run:
  "exact_inv s \<Longrightarrow> length (entries (index (run cd s evs))) \<le> 2 ^ 32 \<Longrightarrow>
     exact_inv (run cd s evs)"
proof (induction evs arbitrary: s)
  case Nil
  then show ?case by (simp add: run_def)
next
  case (Cons ev evs)
  from run_entries [of cd "step cd s ev" evs] Cons.prems(2)
  have "length (entries (index (step cd s ev))) \<le> 2 ^ 32"
    unfolding run_Cons by simp
  from exact_inv_step [OF Cons.prems(1) this] have "exact_inv (step cd s ev)" .
  from Cons.IH [OF this] Cons.prems(2) show ?case unfolding run_Cons by simp
qed

lemma exact_inv_fresh:
  assumes "fst (newSegment empty_dir b c) = Inr s0"
  shows "exact_inv s0 \<and> baseOffset s0 = b"
proof -
  from assms have "newSegment empty_dir b c = (Inr s0, snd (newSegment empty_dir b c))"
    by (metis prod.collapse)
  from newSegment_result [OF this] show ?thesis
    by (auto simp add: exact_inv_def open_index_file_def empty_dir_def)
qed

text \<open>
  C2 (amended). In a state that a segment opened in an empty directory has reached,
  with at most \<open>2^32\<close> index entries and base offset plus entries below \<open>2^64\<close>,
  \<open>segment.Read\<close> of an offset below \<open>baseOffset\<close> or at or beyond \<open>nextOffset\<close>, other
  than \<open>baseOffset - 1\<close>, returns the not-found error and no record, and leaves the
  segment as it was.
\<close>

theorem segment_Read_out_of_range_not_found:
  assumes "fst (newSegment empty_dir b c) = Inr s0"
    and "length (entries (index (run cd s0 evs))) \<le> 2 ^ 32"
    and "unat b + length (entries (index (run cd s0 evs))) < 2 ^ 64"
    and "off < baseOffset (run cd s0 evs) \<or> nextOffset (run cd s0 evs) \<le> off"
    and "off \<noteq> baseOffset (run cd s0 evs) - 1"
  shows "segment_Read cd (run cd s0 evs) off = ((None, Some ErrNotFound), run cd s0 evs)"
proof -
  from exact_inv_fresh [OF assms(1)] have i: "exact_inv s0" and b: "baseOffset s0 = b"
    by simp_all
  from run_entries [of cd s0 evs] b have b': "baseOffset (run cd s0 evs) = b" by simp
  from exact_inv_run [OF i assms(2)]
  have n: "nextOffset (run cd s0 evs)
      = baseOffset (run cd s0 evs) + word_of_nat (length (entries (index (run cd s0 evs))))"
    by (simp add: exact_inv_def)
  from assms(3) b'
  have w: "unat (baseOffset (run cd s0 evs)) + length (entries (index (run cd s0 evs))) < 2 ^ 64"
    by simp
  show ?thesis by (rule segment_Read_out_of_range [OF n w assms(4) assms(5)])
qed


theorem segment_Read_out_of_range_not_found_witness:
  "fst (newSegment empty_dir 0 sample_config) = Inr fresh_sample \<and>
   nextOffset (run sample_codec fresh_sample [EvAppend \<lparr>Value = [1, 2, 3], Offset = 0\<rparr>]) = 1 \<and>
   segment_Read sample_codec
      (run sample_codec fresh_sample [EvAppend \<lparr>Value = [1, 2, 3], Offset = 0\<rparr>]) 5
     = ((None, Some ErrNotFound),
        run sample_codec fresh_sample [EvAppend \<lparr>Value = [1, 2, 3], Offset = 0\<rparr>])"
proof -
  let ?R = "run sample_codec fresh_sample [EvAppend \<lparr>Value = [1, 2, 3], Offset = 0\<rparr>]"
  have e1: "length (entries (index ?R)) = 1"
    by (simp add: run_def segment_defs store_defs bufio_Write_loop.simps)
  have e2: "nextOffset ?R = 1"
    by (simp add: run_def segment_defs store_defs bufio_Write_loop.simps)
  have e3: "baseOffset ?R = 0"
    by (simp add: run_def segment_defs store_defs bufio_Write_loop.simps)
  have h2: "length (entries (index ?R)) \<le> 2 ^ 32" unfolding e1 by simp
  have h3: "unat (0 :: uint64) + length (entries (index ?R)) < 2 ^ 64" unfolding e1 by simp
  have h4: "5 < baseOffset ?R \<or> nextOffset ?R \<le> 5" unfolding e2 e3 by simp
  have h5: "5 \<noteq> baseOffset ?R - 1" unfolding e3 by simp
  from segment_Read_out_of_range_not_found [OF newSegment_fresh_sample h2 h3 h4 h5] newSegment_fresh_sample e2
  show ?thesis by simp
qed

text \<open>
  The claim as stated fails at \<open>baseOffset - 1\<close>: the segment passes \<open>int64(off -
  baseOffset) = -1\<close> to the index, which reads its last entry; with base offset 1 and
  one record, \<open>Read(0)\<close> returns that record.
\<close>

theorem segment_Read_below_base_counterexample:
  "fst (newSegment empty_dir 1 sample_config) = Inr (fresh_at 1) \<and>
   baseOffset (run sample_codec (fresh_at 1) [EvAppend \<lparr>Value = [1, 2, 3], Offset = 0\<rparr>]) = 1 \<and>
   (0 :: uint64) < 1 \<and>
   fst (segment_Read sample_codec
      (run sample_codec (fresh_at 1) [EvAppend \<lparr>Value = [1, 2, 3], Offset = 0\<rparr>]) 0)
     = (Some \<lparr>Value = [1, 2, 3], Offset = 1\<rparr>, None)"
proof -
  let ?R = "run sample_codec (fresh_at 1) [EvAppend \<lparr>Value = [1, 2, 3], Offset = 0\<rparr>]"
  have a: "baseOffset ?R = 1"
    by (simp add: run_def fresh_at_def segment_defs store_defs bufio_Write_loop.simps)
  have b: "fst (segment_Read sample_codec ?R 0) = (Some \<lparr>Value = [1, 2, 3], Offset = 1\<rparr>, None)"
    by (simp add: run_def fresh_at_def segment_defs store_defs bufio_Write_loop.simps
        Uint64_def)
  from a b newSegment_fresh_at [of 1] show ?thesis by simp
qed

subsection \<open>Closing and reopening\<close>

lemma newSegment_big_fresh: "fst (newSegment empty_dir 0 big_config) = Inr big_fresh"
  by (simp add: run_defs segment_defs big_config_def big_fresh_def)

lemma append_all_entries:
  assumes "append_all cd s rs = (out, s')" "list_all succeeded out"
  shows "length (entries (index s')) = length (entries (index s)) + length rs"
  using assms
proof (induction rs arbitrary: s out)
  case Nil
  then show ?case by simp
next
  case (Cons r rs)
  obtain res s1 r' where a: "segment_Append cd s r = (res, s1, r')"
    by (cases "segment_Append cd s r") auto
  obtain out1 where b: "append_all cd s1 rs = (out1, s')" and o: "out = (res, r') # out1"
    using Cons.prems(1) a by (auto split: prod.splits)
  from Cons.prems(2) o have ok0: "succeeded (res, r')" and ok1: "list_all succeeded out1"
    by simp_all
  from ok0 obtain off where res: "res = Inr off"
    by (cases res) (simp_all add: succeeded_def)
  from segment_Append_cases [OF a] res
  have "length (entries (index s1)) = length (entries (index s)) + 1" by auto
  with Cons.IH [OF b ok1] show ?case by simp
qed

lemma exact_inv_append_all:
  assumes "append_all cd s rs = (out, s')" "exact_inv s"
  shows "exact_inv s'"
  using assms
proof (induction rs arbitrary: s out)
  case Nil
  then show ?case by simp
next
  case (Cons r rs)
  obtain res s1 r' where a: "segment_Append cd s r = (res, s1, r')"
    by (cases "segment_Append cd s r") auto
  obtain out1 where b: "append_all cd s1 rs = (out1, s')"
    using Cons.prems(1) a by (auto split: prod.splits)
  from Cons.IH [OF b exact_inv_Append [OF a Cons.prems(2)]] show ?case .
qed

lemma append_all_all_succeed:
  assumes "\<And>r. \<exists>p. Marshal cd r = Inr p"
    "(length (entries (index s)) + length rs) * entWidth \<le> unat (mmap_len (index s))"
  shows "list_all succeeded (fst (append_all cd s rs))"
  using assms(2)
proof (induction rs arbitrary: s)
  case Nil
  show ?case by simp
next
  case (Cons r rs)
  obtain res s1 r' where a: "segment_Append cd s r = (res, s1, r')"
    by (cases "segment_Append cd s r") auto
  from assms(1) obtain p where p: "Marshal cd (r\<lparr>Offset := nextOffset s\<rparr>) = Inr p" by blast
  from Cons.prems have cap: "\<not> unat (mmap_len (index s)) < (length (entries (index s)) + 1) * entWidth"
    by (simp add: entWidth_def)
  from a p cap have res: "res = Inr (nextOffset s)"
    by (auto simp add: segment_Append_def index_Write_def Let_def split: prod.splits)
  from segment_Append_cases [OF a] res
  have "length (entries (index s1)) = length (entries (index s)) + 1"
    "mmap_len (index s1) = mmap_len (index s)" by auto
  with Cons.prems
  have "(length (entries (index s1)) + length rs) * entWidth \<le> unat (mmap_len (index s1))"
    by simp
  from Cons.IH [OF this] have ih: "list_all succeeded (fst (append_all cd s1 rs))" .
  have "fst (append_all cd s (r # rs)) = (res, r') # fst (append_all cd s1 rs)"
    using a by (simp add: split_def)
  moreover have "succeeded (res, r')" using res by (simp add: succeeded_def)
  ultimately show ?case using ih by simp
qed

text \<open>
  C6 (amended). After \<open>K <= 2^32\<close> successful appends to a segment opened in an empty
  directory with base offset \<open>B\<close>, a close and \<open>newSegment\<close> on the directory it leaves
  give a segment whose \<open>nextOffset\<close> is \<open>B + K\<close>, which is the offset of its next
  successful append; for \<open>K = 0\<close> it is \<open>B\<close>.
\<close>

theorem reopen_recovers_nextOffset:
  assumes "fst (newSegment empty_dir b c) = Inr s0"
    and "append_all cd s0 rs = (out, s1)" and "list_all succeeded out"
    and "length rs \<le> 2 ^ 32"
    and "segment_Close s1 d = (e, d')"
  shows "\<exists>s2. fst (newSegment d' b c') = Inr s2 \<and> baseOffset s2 = b \<and>
     nextOffset s2 = b + word_of_nat (length rs) \<and>
     (rs = [] \<longrightarrow> nextOffset s2 = b) \<and>
     (\<forall>r off. fst (segment_Append cd s2 r) = Inr off \<longrightarrow> off = b + word_of_nat (length rs))"
proof -
  from exact_inv_fresh [OF assms(1)] have i0: "exact_inv s0" and b0: "baseOffset s0 = b"
    by simp_all
  from newSegment_result [of empty_dir b c] assms(1) have e0: "entries (index s0) = []"
    by (cases "newSegment empty_dir b c") (auto simp add: open_index_file_def empty_dir_def)
  from append_all_entries [OF assms(2,3)] e0
  have n: "length (entries (index s1)) = length rs" by simp
  from append_all_offsets [OF assms(2,3)] b0 have b1: "baseOffset s1 = b" by simp
  note i1 = exact_inv_append_all [OF assms(2) i0]
  obtain res d'' where ns: "newSegment d' b c' = (res, d'')"
    by (cases "newSegment d' b c'") auto
  from newSegment_result [OF ns] obtain s2 where s2: "res = Inr s2" "baseOffset s2 = b"
    "entries (index s2) = open_index_file d' b" by blast
  from segment_Close_index [OF assms(5)] b1
  have oi: "open_index_file d' b = entries (index s1)" by simp
  from assms(4) n have "length (entries (index s1)) \<le> 2 ^ 32" by simp
  from exact_inv_newSegment [OF ns [unfolded s2(1)] oi i1 this] have i2: "exact_inv s2" .
  with s2 oi n have nx: "nextOffset s2 = b + word_of_nat (length rs)"
    by (simp add: exact_inv_def)
  have ap: "off = b + word_of_nat (length rs)" if "fst (segment_Append cd s2 r) = Inr off" for r off
  proof -
    from that have "segment_Append cd s2 r
        = (Inr off, fst (snd (segment_Append cd s2 r)), snd (snd (segment_Append cd s2 r)))"
      by (metis prod.collapse)
    from segment_Append_Inr [OF this] nx show ?thesis by simp
  qed
  from ns s2 nx ap show ?thesis by auto
qed


theorem reopen_recovers_nextOffset_witness:
  "fst (newSegment empty_dir 0 sample_config) = Inr fresh_sample \<and>
   list_all succeeded (fst (append_all sample_codec fresh_sample
      [\<lparr>Value = [1], Offset = 9\<rparr>, \<lparr>Value = [2, 3], Offset = 9\<rparr>])) \<and>
   map_sum id nextOffset
     (reopen (snd (append_all sample_codec fresh_sample
        [\<lparr>Value = [1], Offset = 9\<rparr>, \<lparr>Value = [2, 3], Offset = 9\<rparr>])) sample_config) = Inr 2"
proof -
  let ?rs = "[\<lparr>Value = [1], Offset = 9\<rparr>, \<lparr>Value = [2 :: byte, 3], Offset = 9\<rparr>]"
  let ?A = "append_all sample_codec fresh_sample ?rs"
  have h2: "?A = (fst ?A, snd ?A)" by simp
  have ev: "fst ?A
      = [(Inr 0, \<lparr>Value = [1], Offset = 0\<rparr>), (Inr 1, \<lparr>Value = [2, 3], Offset = 1\<rparr>)]"
    by (simp add: segment_defs store_defs bufio_Write_loop.simps)
  have h3: "list_all succeeded (fst ?A)"
    unfolding ev by (simp add: succeeded_def)
  have h4: "length ?rs \<le> 2 ^ 32" by simp
  have h5: "segment_Close (snd ?A) empty_dir
      = (fst (segment_Close (snd ?A) empty_dir), snd (segment_Close (snd ?A) empty_dir))"
    by simp
  from reopen_recovers_nextOffset [OF newSegment_fresh_sample h2 h3 h4 h5, of sample_config]
  obtain s2 where "fst (newSegment (snd (segment_Close (snd ?A) empty_dir)) 0 sample_config)
      = Inr s2" "nextOffset s2 = 0 + word_of_nat (length ?rs)" by blast
  moreover from append_all_offsets [OF h2 h3] have "baseOffset (snd ?A) = 0"
    by (simp add: fresh_sample_def)
  ultimately have "map_sum id nextOffset (reopen (snd ?A) sample_config) = Inr 2"
    by (simp add: reopen_def split_def)
  with newSegment_fresh_sample h3 show ?thesis by simp
qed

text \<open>
  The claim as stated fails beyond \<open>2^32\<close> records: the index keeps relative offsets
  in 32 bits, the entry of record \<open>2^32\<close> carries relative offset \<open>0\<close>, and the reopened
  segment resumes at \<open>B + 1\<close>.
\<close>

theorem reopen_truncates_counterexample:
  "fst (newSegment empty_dir 0 big_config) = Inr big_fresh \<and>
   list_all succeeded
     (fst (append_all sample_codec big_fresh (replicate (2 ^ 32 + 1) \<lparr>Value = [], Offset = 0\<rparr>))) \<and>
   map_sum id nextOffset
     (reopen (snd (append_all sample_codec big_fresh
        (replicate (2 ^ 32 + 1) \<lparr>Value = [], Offset = 0\<rparr>))) big_config) = Inr 1 \<and>
   (1 :: uint64) \<noteq> 0 + word_of_nat (2 ^ 32 + 1)"
proof -
  let ?rs = "replicate (2 ^ 32 + 1) \<lparr>Value = [] :: byte list, Offset = 0 :: uint64\<rparr>"
  let ?A = "append_all sample_codec big_fresh ?rs"
  have m: "\<exists>p. Marshal sample_codec r = Inr p" for r
    by (simp add: sample_codec_def)
  have cap: "(length (entries (index big_fresh)) + length ?rs) * entWidth
      \<le> unat (mmap_len (index big_fresh))"
    by (simp add: big_fresh_def fresh_sample_def entWidth_def)
  from append_all_all_succeed [of sample_codec big_fresh ?rs, OF m cap]
  have ok: "list_all succeeded (fst ?A)" .
  have pc: "?A = (fst ?A, snd ?A)" by simp
  from exact_inv_fresh [OF newSegment_big_fresh]
  have i0: "exact_inv big_fresh" by simp
  note i1 = exact_inv_append_all [OF pc i0]
  from append_all_entries [OF pc ok]
  have n: "length (entries (index (snd ?A))) = 2 ^ 32 + 1"
    by (simp add: big_fresh_def fresh_sample_def)
  then have ne: "entries (index (snd ?A)) \<noteq> []" by auto
  from append_all_offsets [OF pc ok] have b1: "baseOffset (snd ?A) = 0"
    by (simp add: big_fresh_def fresh_sample_def)
  from i1 ne n have l: "fst (last (entries (index (snd ?A)))) = 0"
    by (simp add: exact_inv_def)
  obtain e d where cl: "segment_Close (snd ?A) empty_dir = (e, d)"
    by (cases "segment_Close (snd ?A) empty_dir") auto
  obtain res d' where ns: "newSegment d 0 big_config = (res, d')"
    by (cases "newSegment d 0 big_config") auto
  from segment_Close_index [OF cl] b1
  have oi: "open_index_file d 0 = entries (index (snd ?A))" by simp
  from newSegment_result [OF ns] oi ne l obtain s2 where "res = Inr s2" "nextOffset s2 = 1"
    by auto
  with cl ns b1 have "map_sum id nextOffset (reopen (snd ?A) big_config) = Inr 1"
    by (simp add: reopen_def)
  with ok newSegment_big_fresh show ?thesis by simp
qed

subsection \<open>Appending, then reading back\<close>





























text \<open>
  C1. The evaluation of \<open>segment.Append\<close> where the store append fails: on the segment
  that \<open>newSegment\<close> returns in an empty directory, once the file rejects writes, a record
  of 4104 bytes does not fit the write buffer, \<open>store.Append\<close> returns the write error,
  and \<open>segment.Append\<close> nevertheless writes the index entry \<open>(0, 0)\<close>, advances
  \<open>nextOffset\<close> and returns offset \<open>0\<close> with no error.
\<close>

theorem segment_Append_masks_store_error:
  "fst (newSegment empty_dir 0 sample_config) = Inr fresh_sample \<and>
   Marshal sample_codec \<lparr>Value = replicate 4096 0, Offset = 0\<rparr>
     = Inr (PutUint64 0 @ replicate 4096 0) \<and>
   fst (store_Append (store (set_wfault True fresh_sample)) (PutUint64 0 @ replicate 4096 0))
     = (0, 0, Some ErrWriteFault) \<and>
   fst (segment_Append sample_codec (set_wfault True fresh_sample)
          \<lparr>Value = replicate 4096 0, Offset = 0\<rparr>) = Inr 0 \<and>
   entries (index (fst (snd (segment_Append sample_codec (set_wfault True fresh_sample)
          \<lparr>Value = replicate 4096 0, Offset = 0\<rparr>)))) = [(0, 0)] \<and>
   nextOffset (fst (snd (segment_Append sample_codec (set_wfault True fresh_sample)
          \<lparr>Value = replicate 4096 0, Offset = 0\<rparr>))) = 1"
proof -
  have a: "fst (store_Append (store (set_wfault True fresh_sample))
      (PutUint64 0 @ replicate 4096 0)) = (0, 0, Some ErrWriteFault)"
    by (simp add: segment_defs store_defs bufio_Write_loop.simps)
  have b: "fst (segment_Append sample_codec (set_wfault True fresh_sample)
          \<lparr>Value = replicate 4096 0, Offset = 0\<rparr>) = Inr 0"
    by (simp add: segment_defs store_defs bufio_Write_loop.simps)
  have c: "entries (index (fst (snd (segment_Append sample_codec (set_wfault True fresh_sample)
          \<lparr>Value = replicate 4096 0, Offset = 0\<rparr>)))) = [(0, 0)]"
    by (simp add: segment_defs store_defs bufio_Write_loop.simps)
  have d: "nextOffset (fst (snd (segment_Append sample_codec (set_wfault True fresh_sample)
          \<lparr>Value = replicate 4096 0, Offset = 0\<rparr>))) = 1"
    by (simp add: segment_defs store_defs bufio_Write_loop.simps)
  from a b c d newSegment_fresh_sample show ?thesis
    by (simp add: sample_codec_def)
qed

end
